theory Spec2Isabelle
  imports Main "HOL-Library.Log_Nat"
begin

section \<open>JavaScript strings\<close>

text \<open>
  A JavaScript string is modelled as a \<^typ>\<open>string\<close> whose characters are the code units
  of the Latin-1 range (U+0000 .. U+00FF).  \<open>undefined\<close> and \<open>null\<close> are \<^const>\<open>None\<close> of a
  \<^typ>\<open>string option\<close>.
\<close>

text \<open>The WhiteSpace and LineTerminator code units below U+0100: TAB, LF, VT, FF, CR, SP, NBSP.\<close>

definition is_space :: "char \<Rightarrow> bool" where
  "is_space c = (of_char c \<in> {9, 10, 11, 12, 13, 32, 160 :: nat})"

text \<open>\<open>String.prototype.trimStart\<close> and \<open>String.prototype.trim\<close>.\<close>

definition trimStart :: "string \<Rightarrow> string" where
  "trimStart s = dropWhile is_space s"

definition trim :: "string \<Rightarrow> string" where
  "trim s = rev (dropWhile is_space (rev (dropWhile is_space s)))"

text \<open>\<open>String.prototype.toLowerCase\<close> on Latin-1: A-Z and U+00C0 .. U+00DE (without the
  multiplication sign U+00D7) move up by 32.\<close>

definition lower_char :: "char \<Rightarrow> char" where
  "lower_char c =
     (let n = (of_char c :: nat)
      in if (65 \<le> n \<and> n \<le> 90) \<or> (192 \<le> n \<and> n \<le> 222 \<and> n \<noteq> 215) then char_of (n + 32) else c)"

definition toLowerCase :: "string \<Rightarrow> string" where
  "toLowerCase s = map lower_char s"

definition is_digit :: "char \<Rightarrow> bool" where
  "is_digit c = (48 \<le> (of_char c :: nat) \<and> (of_char c :: nat) \<le> 57)"

definition digit_val :: "char \<Rightarrow> nat" where
  "digit_val c = of_char c - 48"

definition digit_char :: "nat \<Rightarrow> char" where
  "digit_char d = char_of (48 + d)"

text \<open>The mathematical value of a run of decimal digits.\<close>

definition parse_nat :: "string \<Rightarrow> nat" where
  "parse_nat ds = foldl (\<lambda>a c. 10 * a + digit_val c) 0 ds"

text \<open>The decimal digits of a natural number, without leading zeros.\<close>

fun digits_of :: "nat \<Rightarrow> string" where
  "digits_of n = (if n < 10 then [digit_char n] else digits_of (n div 10) @ [digit_char (n mod 10)])"

declare digits_of.simps [simp del]

section \<open>JavaScript numbers\<close>

text \<open>
  A Number is an IEEE 754 binary64 value.  The finite ones are modelled by the rational
  they denote, so that rounding is exact arithmetic.  The two zeros are identified: the
  program only ever prints a Number after \<open>Math.floor\<close>, and \<open>String(-0)\<close> is \<open>"0"\<close>.
\<close>

datatype number = NaN | Fin rat | PosInf | NegInf

text \<open>For \<open>0 < q\<close>: the integer \<open>l\<close> with \<open>2\<^sup>l \<le> q < 2\<^sup>l\<^sup>+\<^sup>1\<close>.\<close>

definition ilog2 :: "rat \<Rightarrow> int" where
  "ilog2 q =
     (let (a, b) = quotient_of q; l = bitlen a - bitlen b
      in if 2 powi l \<le> q then l else l - 1)"

text \<open>Rounding to the nearest integer, ties to the even one.\<close>

definition round_half_even :: "rat \<Rightarrow> int" where
  "round_half_even x =
     (let f = \<lfloor>x\<rfloor>; r = x - of_int f
      in if r < 1 / 2 then f else if 1 / 2 < r then f + 1 else if even f then f else f + 1)"

text \<open>
  The binary64 value nearest to a positive rational (roundTiesToEven): 53 significant
  bits, the exponent of the last place never below \<open>-1074\<close> (subnormals).
\<close>

definition round_pos :: "rat \<Rightarrow> rat" where
  "round_pos q =
     (let e = max (ilog2 q - 52) (- 1074)
      in of_int (round_half_even (q * 2 powi (- e))) * 2 powi e)"

text \<open>
  The Number value of a rational.  A magnitude that rounds to \<open>2\<^sup>1\<^sup>0\<^sup>2\<^sup>4\<close> or beyond
  overflows to an infinity; one that rounds to zero gives zero.
\<close>

definition to_double :: "rat \<Rightarrow> number" where
  "to_double q =
     (if q = 0 then Fin 0
      else if 0 < q then
        (let y = round_pos q in if y = 0 then Fin 0 else if 1024 \<le> ilog2 y then PosInf else Fin y)
      else
        (let y = round_pos (- q) in if y = 0 then Fin 0 else if 1024 \<le> ilog2 y then NegInf else Fin (- y)))"

definition negate :: "number \<Rightarrow> number" where
  "negate x = (case x of NaN \<Rightarrow> NaN | Fin q \<Rightarrow> Fin (- q) | PosInf \<Rightarrow> NegInf | NegInf \<Rightarrow> PosInf)"

subsection \<open>\<open>parseFloat\<close>\<close>

text \<open>
  The value of an ExponentPart at the head of the text (\<open>e\<close> or \<open>E\<close>, an optional sign,
  digits).  Without digits there is no ExponentPart, and the value \<open>0\<close> stands for its
  absence, as \<open>parse_nat [] = 0\<close>.
\<close>

definition exponent_of :: "string \<Rightarrow> int" where
  "exponent_of r =
     (case r of
        [] \<Rightarrow> 0
      | c # r1 \<Rightarrow>
          if c = CHR ''e'' \<or> c = CHR ''E'' then
            (case r1 of
               [] \<Rightarrow> 0
             | s # r2 \<Rightarrow>
                 if s = CHR ''+'' then int (parse_nat (takeWhile is_digit r2))
                 else if s = CHR ''-'' then - int (parse_nat (takeWhile is_digit r2))
                 else int (parse_nat (takeWhile is_digit r1)))
          else 0)"

text \<open>
  The longest prefix that is a StrUnsignedDecimalLiteral, and its Number value:
  \<open>Infinity\<close>, or digits with an optional fraction and an optional exponent; \<open>NaN\<close> when
  no prefix is one.
\<close>

definition str_unsigned :: "string \<Rightarrow> number" where
  "str_unsigned s =
     (if take 8 s = ''Infinity'' then PosInf
      else
        (let ip = takeWhile is_digit s; r = dropWhile is_digit s
         in case r of
              [] \<Rightarrow> if ip = [] then NaN else to_double (of_nat (parse_nat ip))
            | c # r1 \<Rightarrow>
                if c = CHR ''.'' then
                  (let fp = takeWhile is_digit r1; r2 = dropWhile is_digit r1
                   in if ip = [] \<and> fp = [] then NaN
                      else to_double (of_nat (parse_nat (ip @ fp))
                                      * 10 powi (exponent_of r2 - int (length fp))))
                else if ip = [] then NaN
                else to_double (of_nat (parse_nat ip) * 10 powi exponent_of r)))"

definition parseFloat :: "string \<Rightarrow> number" where
  "parseFloat s =
     (case trimStart s of
        [] \<Rightarrow> NaN
      | c # r \<Rightarrow>
          if c = CHR ''+'' then str_unsigned r
          else if c = CHR ''-'' then negate (str_unsigned r)
          else str_unsigned (c # r))"

subsection \<open>\<open>Math.floor\<close> and \<open>String\<close>\<close>

text \<open>\<open>Math.floor\<close> returns an integral Number, an infinity or \<open>NaN\<close>.\<close>

datatype integral = INaN | IFin int | IPosInf | INegInf

definition Math_floor :: "number \<Rightarrow> integral" where
  "Math_floor x = (case x of NaN \<Rightarrow> INaN | Fin q \<Rightarrow> IFin \<lfloor>q\<rfloor> | PosInf \<Rightarrow> IPosInf | NegInf \<Rightarrow> INegInf)"

text \<open>
  \<open>Number::toString\<close> prints the shortest decimal \<open>s \<times> 10\<^sup>n\<^sup>-\<^sup>k\<close> whose Number value is the
  number itself.  For a positive integer \<open>y\<close> the candidates with \<open>j\<close> trailing zeros are the
  two multiples of \<open>10\<^sup>j\<close> around \<open>y\<close>; of two that qualify the one nearer to \<open>y\<close> is taken,
  and the even one on a tie.
\<close>

definition shortest_at :: "nat \<Rightarrow> nat \<Rightarrow> nat option" where
  "shortest_at y j =
     (let p = 10 ^ j; lo = (y div p) * p; hi = lo + p;
          okl = (0 < lo \<and> to_double (of_nat lo) = Fin (of_nat y));
          okh = (to_double (of_nat hi) = Fin (of_nat y))
      in if okl \<and> okh then
           (if y - lo < hi - y then Some lo
            else if hi - y < y - lo then Some hi
            else if even (y div p) then Some lo else Some hi)
         else if okl then Some lo
         else if okh then Some hi
         else None)"

text \<open>The search runs from the most trailing zeros down to none.\<close>

fun shortest_scan :: "nat \<Rightarrow> nat \<Rightarrow> nat option" where
  "shortest_scan y 0 = shortest_at y 0"
| "shortest_scan y (Suc j) =
     (case shortest_at y (Suc j) of Some x \<Rightarrow> Some x | None \<Rightarrow> shortest_scan y j)"

definition shortest_decimal :: "nat \<Rightarrow> nat" where
  "shortest_decimal y =
     (case shortest_scan y (length (digits_of y)) of Some x \<Rightarrow> x | None \<Rightarrow> y)"

definition strip_zeros :: "string \<Rightarrow> string" where
  "strip_zeros ds = rev (dropWhile (\<lambda>c. c = CHR ''0'') (rev ds))"

text \<open>
  With \<open>n\<close> digits before the decimal point: plain digits up to \<open>n = 21\<close>, beyond that the
  exponential form \<open>d.ddde+x\<close> (\<open>de+x\<close> for a single significant digit).
\<close>

definition pos_to_string :: "nat \<Rightarrow> string" where
  "pos_to_string y =
     (let ds = digits_of (shortest_decimal y); n = length ds
      in if n \<le> 21 then ds
         else (case strip_zeros ds of
                 [] \<Rightarrow> ds
               | d # rest \<Rightarrow>
                   (if rest = [] then [d] else d # CHR ''.'' # rest) @ ''e+'' @ digits_of (n - 1)))"

definition String_of :: "integral \<Rightarrow> string" where
  "String_of x =
     (case x of
        INaN \<Rightarrow> ''NaN''
      | IPosInf \<Rightarrow> ''Infinity''
      | INegInf \<Rightarrow> ''-Infinity''
      | IFin i \<Rightarrow>
          if i = 0 then ''0''
          else if i < 0 then CHR ''-'' # pos_to_string (nat (- i))
          else pos_to_string (nat i))"

section \<open>Identifier Normalizer\<close>

text \<open>The test \<^verbatim>\<open>/^-?\d+\.?\d*[eE][+-]?\d+$/\<close> of \<open>normalizeHB\<close>.  No two adjacent parts of
  the pattern can match the same character, so matching is a single pass.\<close>

definition sci_notation :: "string \<Rightarrow> bool" where
  "sci_notation s =
     (let s1 = (case s of [] \<Rightarrow> [] | c # r \<Rightarrow> if c = CHR ''-'' then r else s);
          ip = takeWhile is_digit s1;
          r1 = dropWhile is_digit s1;
          r2 = (case r1 of [] \<Rightarrow> [] | c # r \<Rightarrow> if c = CHR ''.'' then r else r1);
          r3 = dropWhile is_digit r2
      in ip \<noteq> [] \<and>
         (case r3 of
            [] \<Rightarrow> False
          | c # r4 \<Rightarrow>
              (c = CHR ''e'' \<or> c = CHR ''E'') \<and>
              (let r5 = (case r4 of [] \<Rightarrow> [] | s # r \<Rightarrow> if s = CHR ''+'' \<or> s = CHR ''-'' then r else r4)
               in r5 \<noteq> [] \<and> list_all is_digit r5)))"

text \<open>
  \<open>normalizeHB\<close> as \<^verbatim>\<open>localDatabase.js\<close> has it (\<^verbatim>\<open>MetricsBar.jsx\<close>, lines 432-451) and
  as the later text of \<^verbatim>\<open>csvUtils.js\<close> has it (\<^verbatim>\<open>database.js\<close>, lines 1167-1188); the two
  agree: only scientific notation is converted.
\<close>

definition normalizeHB :: "string option \<Rightarrow> string" where
  "normalizeHB v =
     (case v of
        None \<Rightarrow> ''''
      | Some s \<Rightarrow>
          if s = '''' then ''''
          else
            (let strValue = trim s
             in if sci_notation strValue then
                  (let num = parseFloat strValue
                   in if num \<noteq> NaN then String_of (Math_floor num) else strValue)
                else strValue))"

text \<open>\<open>normalizeHB\<close> of \<^verbatim>\<open>csvUtils.js\<close>, lines 97-113, the earlier text: whatever
  \<open>parseFloat\<close> accepts is converted.\<close>

definition normalizeHB_csvUtils :: "string option \<Rightarrow> string" where
  "normalizeHB_csvUtils v =
     (case v of
        None \<Rightarrow> ''''
      | Some s \<Rightarrow>
          if s = '''' then ''''
          else
            (let num = parseFloat s
             in if num \<noteq> NaN then String_of (Math_floor num) else trim s))"

section \<open>Row Cleaner\<close>

text \<open>
  A parsed CSV row is an object from header names to strings (PapaParse with
  \<open>header: true\<close>), kept as an association list in header order; a missing key reads as
  \<open>undefined\<close>.
\<close>

type_synonym row = "(string \<times> string) list"

definition field :: "row \<Rightarrow> string \<Rightarrow> string option" where
  "field r k = map_of r k"

text \<open>The loop over \<open>Object.keys(row)\<close>: every value is trimmed, the one of \<open>HB\<close> normalized.\<close>

definition cleanRow :: "row \<Rightarrow> row" where
  "cleanRow r = map (\<lambda>(k, v). (k, if k = ''HB'' then normalizeHB (Some (trim v)) else trim v)) r"

definition cleanRow_csvUtils :: "row \<Rightarrow> row" where
  "cleanRow_csvUtils r =
     map (\<lambda>(k, v). (k, if k = ''HB'' then normalizeHB_csvUtils (Some (trim v)) else trim v)) r"

text \<open>\<^verbatim>\<open>x && x !== '' && x.toLowerCase() !== 'nan'\<close>\<close>

definition has_value :: "string option \<Rightarrow> bool" where
  "has_value x = (case x of None \<Rightarrow> False | Some s \<Rightarrow> s \<noteq> '''' \<and> toLowerCase s \<noteq> ''nan'')"

text \<open>\<open>cleanData\<close> of the later text of \<^verbatim>\<open>csvUtils.js\<close> (\<^verbatim>\<open>database.js\<close>, lines 1124-1158):
  a row is kept when it has a container, an HB or an MBL.\<close>

definition cleanData :: "row list \<Rightarrow> row list" where
  "cleanData data =
     filter (\<lambda>r. has_value (field r ''CONTAINER'') \<or> has_value (field r ''HB'')
                  \<or> has_value (field r ''MBL''))
       (map cleanRow data)"

text \<open>\<open>cleanData\<close> of \<^verbatim>\<open>csvUtils.js\<close>, lines 61-90, the earlier text: \<open>hb\<close> is read but
  only the container decides.\<close>

definition cleanData_csvUtils :: "row list \<Rightarrow> row list" where
  "cleanData_csvUtils data =
     filter (\<lambda>r. has_value (field r ''CONTAINER'')) (map cleanRow_csvUtils data)"

section \<open>Local storage\<close>

text \<open>The seventeen columns that a report row and a master-list entry share; \<open>null\<close> is
  \<^const>\<open>None\<close>.\<close>

record item =
  container :: "string option"
  seal_number :: "string option"
  carrier :: "string option"
  mbl :: "string option"
  mi :: "string option"
  vessel :: "string option"
  hb :: string
  outer_quantity :: "string option"
  pcs :: "string option"
  wt_lbs :: "string option"
  cnee :: "string option"
  frl :: "string option"
  file_no :: "string option"
  dest :: "string option"
  volume :: "string option"
  vbond :: "string option"
  tdf :: "string option"

record report_row = item +
  row_id :: nat
  upload_id :: string

record master_entry = item +
  last_updated_upload_id :: string
  updated_at :: nat
  entry_id :: nat
  first_seen_upload_id :: string
  created_at :: nat

record upload =
  uid :: string
  filename :: string
  row_count :: nat
  upload_date :: nat

text \<open>
  The three keys of \<open>localStorage\<close>.  \<open>generateId()\<close> and \<open>new Date()\<close> read the
  environment; they are modelled by a counter that every such call returns and advances.
\<close>

record storage =
  uploads :: "upload list"
  report_data :: "report_row list"
  master_list :: "master_entry list"
  tick :: nat

text \<open>\<open>Array.prototype.findIndex\<close>, with \<^const>\<open>None\<close> for \<open>-1\<close>.\<close>

fun findIndex :: "('a \<Rightarrow> bool) \<Rightarrow> 'a list \<Rightarrow> nat option" where
  "findIndex P [] = None"
| "findIndex P (x # xs) =
     (if P x then Some 0 else (case findIndex P xs of None \<Rightarrow> None | Some i \<Rightarrow> Some (Suc i)))"

text \<open>\<^verbatim>\<open>x || null\<close> on a string or \<open>undefined\<close>.\<close>

definition or_null :: "string option \<Rightarrow> string option" where
  "or_null x = (case x of None \<Rightarrow> None | Some s \<Rightarrow> if s = '''' then None else Some s)"

section \<open>Master-List Reconciler\<close>

text \<open>The object \<open>itemData\<close> of \<open>updateMasterList\<close>, without its provenance.\<close>

definition itemData :: "row \<Rightarrow> string \<Rightarrow> item" where
  "itemData r h =
     \<lparr> container = or_null (field r ''CONTAINER''),
       seal_number = or_null (field r ''SEAL #''),
       carrier = or_null (field r ''CARRIER''),
       mbl = or_null (field r ''MBL''),
       mi = or_null (field r ''MI''),
       vessel = or_null (field r ''VESSEL''),
       hb = h,
       outer_quantity = or_null (field r ''OUTER QUANTITY''),
       pcs = or_null (field r ''PCS''),
       wt_lbs = or_null (field r ''WT_LBS''),
       cnee = or_null (field r ''CNEE''),
       frl = or_null (field r ''FRL''),
       file_no = or_null (field r ''FILE_NO''),
       dest = or_null (field r ''DEST''),
       volume = or_null (field r ''VOLUME''),
       vbond = or_null (field r ''VBOND#''),
       tdf = or_null (field r ''TDF'') \<rparr>"

text \<open>The running state of the loop: the list, \<open>itemsAdded\<close>, \<open>itemsUpdated\<close>, the counter.\<close>

type_synonym reconcile_state = "master_entry list \<times> nat \<times> nat \<times> nat"

text \<open>
  One turn of the loop.  A row without HB is skipped.  An entry with the same \<open>hb\<close> is
  overwritten by \<^verbatim>\<open>{ ...existing, ...itemData }\<close>, which keeps its \<open>id\<close>,
  \<open>first_seen_upload_id\<close> and \<open>created_at\<close>; otherwise a new entry is pushed.
\<close>

definition reconcile_row :: "string \<Rightarrow> reconcile_state \<Rightarrow> row \<Rightarrow> reconcile_state" where
  "reconcile_row uploadId st r =
     (case st of (masterList, itemsAdded, itemsUpdated, t) \<Rightarrow>
        (let h = normalizeHB (field r ''HB'')
         in if h = '''' then st
            else
              (case findIndex (\<lambda>m. hb m = h) masterList of
                 Some existingIndex \<Rightarrow>
                   (let existing = masterList ! existingIndex
                    in (masterList[existingIndex :=
                          item.extend (itemData r h)
                            \<lparr> last_updated_upload_id = uploadId, updated_at = t,
                              entry_id = entry_id existing,
                              first_seen_upload_id = first_seen_upload_id existing,
                              created_at = created_at existing \<rparr>],
                        itemsAdded, itemsUpdated + 1, t + 1))
               | None \<Rightarrow>
                   (masterList @
                      [item.extend (itemData r h)
                         \<lparr> last_updated_upload_id = uploadId, updated_at = t,
                           entry_id = t + 1,
                           first_seen_upload_id = uploadId,
                           created_at = t + 2 \<rparr>],
                    itemsAdded + 1, itemsUpdated, t + 3))))"

text \<open>\<open>updateMasterList\<close> of \<^verbatim>\<open>localDatabase.js\<close> (\<^verbatim>\<open>MetricsBar.jsx\<close>, lines 183-235): the
  new storage and \<open>{itemsAdded, itemsUpdated}\<close>.\<close>

definition updateMasterList :: "storage \<Rightarrow> string \<Rightarrow> row list \<Rightarrow> storage \<times> nat \<times> nat" where
  "updateMasterList s uploadId rows =
     (case foldl (reconcile_row uploadId) (master_list s, 0, 0, tick s) rows of
        (masterList, itemsAdded, itemsUpdated, t) \<Rightarrow>
          (s\<lparr>master_list := masterList, tick := t\<rparr>, itemsAdded, itemsUpdated))"

section \<open>Diff Engine\<close>

text \<open>The comparison operations of \<^verbatim>\<open>localDatabase.js\<close> (\<^verbatim>\<open>MetricsBar.jsx\<close>, lines 302-392).
  First the records of one upload.\<close>

definition snapshot :: "storage \<Rightarrow> string \<Rightarrow> report_row list" where
  "snapshot s u = filter (\<lambda>r. upload_id r = u) (report_data s)"

text \<open>\<^verbatim>\<open>new Set(reportData.filter(r => r.upload_id === u && r.hb).map(r => r.hb))\<close>\<close>

definition hbSet :: "storage \<Rightarrow> string \<Rightarrow> string set" where
  "hbSet s u = set (map hb (filter (\<lambda>r. upload_id r = u \<and> hb r \<noteq> '''') (report_data s)))"

text \<open>
  The upload before \<open>currentUploadId\<close>: the list is newest first, so it is the next
  element.  \<^const>\<open>None\<close> when \<^verbatim>\<open>currentIndex === -1 || currentIndex >= uploads.length - 1\<close>.
\<close>

definition prevUploadId :: "storage \<Rightarrow> string \<Rightarrow> string option" where
  "prevUploadId s currentUploadId =
     (case findIndex (\<lambda>u. uid u = currentUploadId) (uploads s) of
        None \<Rightarrow> None
      | Some currentIndex \<Rightarrow>
          if int currentIndex \<ge> int (length (uploads s)) - 1 then None
          else Some (uid (uploads s ! (currentIndex + 1))))"

text \<open>The counts run over the two sets: the keys of the one that the other does not have.\<close>

definition detectNewItems :: "storage \<Rightarrow> string \<Rightarrow> nat" where
  "detectNewItems s currentUploadId =
     (case prevUploadId s currentUploadId of
        None \<Rightarrow> length (snapshot s currentUploadId)
      | Some p \<Rightarrow> card (hbSet s currentUploadId - hbSet s p))"

definition detectRemovedItems :: "storage \<Rightarrow> string \<Rightarrow> nat" where
  "detectRemovedItems s currentUploadId =
     (case prevUploadId s currentUploadId of
        None \<Rightarrow> 0
      | Some p \<Rightarrow> card (hbSet s p - hbSet s currentUploadId))"

definition getNewItemsData :: "storage \<Rightarrow> string \<Rightarrow> report_row list" where
  "getNewItemsData s currentUploadId =
     (case prevUploadId s currentUploadId of
        None \<Rightarrow> snapshot s currentUploadId
      | Some p \<Rightarrow>
          filter (\<lambda>r. hb r \<noteq> '''' \<and> hb r \<notin> hbSet s p) (snapshot s currentUploadId))"

definition getRemovedItemsData :: "storage \<Rightarrow> string \<Rightarrow> report_row list" where
  "getRemovedItemsData s currentUploadId =
     (case prevUploadId s currentUploadId of
        None \<Rightarrow> []
      | Some p \<Rightarrow>
          filter (\<lambda>r. hb r \<noteq> '''' \<and> hb r \<notin> hbSet s currentUploadId) (snapshot s p))"

text \<open>A sequence of \<open>updateMasterList\<close> calls, each with its upload id and its rows.\<close>

definition reconcile_calls :: "storage \<Rightarrow> (string \<times> row list) list \<Rightarrow> storage" where
  "reconcile_calls s calls = foldl (\<lambda>s' (u, rows). fst (updateMasterList s' u rows)) s calls"

text \<open>The storage without its records that have no HB.\<close>

definition drop_keyless :: "storage \<Rightarrow> storage" where
  "drop_keyless s = s\<lparr>report_data := filter (\<lambda>r. hb r \<noteq> '''') (report_data s)\<rparr>"

section \<open>Remote master list\<close>

text \<open>
  A row of the table \<open>ocean_data\<close> as \<open>saveMasterList\<close> of \<^verbatim>\<open>database.js\<close> (lines 653-723)
  writes it: \<open>upload_id\<close>, \<open>status\<close>, and the columns of the row it spreads.  The two
  requests whose error the function checks (the upsert of the upload \<open>master\<close> and the
  insert) either succeed or fail, as the caller of the model says; the update of the
  status, whose error is not read, is taken to succeed.
\<close>

record table_row =
  t_upload_id :: string
  t_status :: string
  t_columns :: row

datatype db_error = MasterUploadError | InsertError

text \<open>\<^verbatim>\<open>{ upload_id: 'master', ...row, status: 'active' }\<close>\<close>

definition master_record :: "row \<Rightarrow> table_row" where
  "master_record r =
     \<lparr> t_upload_id = (case field r ''upload_id'' of None \<Rightarrow> ''master'' | Some v \<Rightarrow> v),
       t_status = ''active'',
       t_columns = r \<rparr>"

text \<open>
  \<open>saveMasterList\<close> with Supabase enabled: every active row of the table is marked
  inactive, the rows given are inserted, and the counts say that all of them were added.
  The table is returned as the requests leave it, with the error thrown or the counts.
\<close>

definition saveMasterList :: "bool \<Rightarrow> bool \<Rightarrow> table_row list \<Rightarrow> row list
    \<Rightarrow> table_row list \<times> (db_error + nat \<times> nat)" where
  "saveMasterList upsert_fails insert_fails tbl data =
     (if upsert_fails then (tbl, Inl MasterUploadError)
      else
        (let tbl1 = map (\<lambda>r. if t_status r = ''active'' then r\<lparr>t_status := ''inactive''\<rparr> else r) tbl;
             records = map master_record data
         in if insert_fails then (tbl1, Inl InsertError)
            else (tbl1 @ records, Inr (length records, 0))))"

definition getMasterList :: "table_row list \<Rightarrow> table_row list" where
  "getMasterList tbl = filter (\<lambda>r. t_upload_id r = ''master'' \<and> t_status r = ''active'') tbl"

section \<open>Remote diff\<close>

text \<open>
  \<open>getNewItemsData\<close> of \<^verbatim>\<open>database.js\<close> (lines 1002-1031) with Supabase enabled, for the
  mode \<open>ocean\<close>.  The
  uploads are what \<open>getAllUploads\<close> returns, newest first; the rows are those of the table;
  the requests are taken to succeed.  The key of a row is its column \<open>hb\<close>, and
  \<^verbatim>\<open>r[keyField]\<close> is truthy for a string that is not empty.
\<close>

definition row_key :: "table_row \<Rightarrow> string option" where
  "row_key r = or_null (field (t_columns r) ''hb'')"

definition getNewItemsData_supabase :: "upload list \<Rightarrow> table_row list \<Rightarrow> string
    \<Rightarrow> table_row list" where
  "getNewItemsData_supabase ups tbl currentUploadId =
     (let currentData = filter (\<lambda>r. t_upload_id r = currentUploadId) tbl
      in case findIndex (\<lambda>u. uid u = currentUploadId) ups of
           None \<Rightarrow> currentData
         | Some currentIndex \<Rightarrow>
             if int currentIndex \<ge> int (length ups) - 1 then currentData
             else
               (let prevData = filter (\<lambda>r. t_upload_id r = uid (ups ! (currentIndex + 1))) tbl;
                    prevKeys = set (List.map_filter row_key prevData)
                in filter (\<lambda>r. case row_key r of None \<Rightarrow> False | Some k \<Rightarrow> k \<notin> prevKeys)
                     currentData))"

section \<open>Example data\<close>

definition blank_item :: "string \<Rightarrow> item" where
  "blank_item h =
     \<lparr> container = None, seal_number = None, carrier = None, mbl = None, mi = None,
       vessel = None, hb = h, outer_quantity = None, pcs = None, wt_lbs = None, cnee = None,
       frl = None, file_no = None, dest = None, volume = None, vbond = None, tdf = None \<rparr>"

definition report :: "nat \<Rightarrow> string \<Rightarrow> string \<Rightarrow> report_row" where
  "report i u h = item.extend (blank_item h) \<lparr> row_id = i, upload_id = u \<rparr>"

definition upload_A :: upload where
  "upload_A = \<lparr> uid = ''A'', filename = ''a.csv'', row_count = 3, upload_date = 1 \<rparr>"

definition upload_B :: upload where
  "upload_B = \<lparr> uid = ''B'', filename = ''b.csv'', row_count = 3, upload_date = 2 \<rparr>"

text \<open>Upload A with the keys 1, 2, 3, then upload B with the keys 2, 3, 4.\<close>

definition diff_example :: storage where
  "diff_example =
     \<lparr> uploads = [upload_B, upload_A],
       report_data = [report 1 ''A'' ''1'', report 2 ''A'' ''2'', report 3 ''A'' ''3'',
                      report 4 ''B'' ''2'', report 5 ''B'' ''3'', report 6 ''B'' ''4''],
       master_list = [], tick = 7 \<rparr>"

text \<open>Upload A with the key 1, then upload B with the key 4 on two rows and a row without HB.\<close>

definition dup_example :: storage where
  "dup_example =
     \<lparr> uploads = [upload_B, upload_A],
       report_data = [report 1 ''A'' ''1'', report 2 ''B'' ''4'', report 3 ''B'' ''4'',
                      report 4 ''B'' ''''],
       master_list = [], tick = 5 \<rparr>"

text \<open>A single upload A with one row that has an HB and one that has none.\<close>

definition keyless_example :: storage where
  "keyless_example =
     \<lparr> uploads = [upload_A],
       report_data = [report 1 ''A'' ''1'', report 2 ''A'' ''''],
       master_list = [], tick = 3 \<rparr>"

definition empty_storage :: storage where
  "empty_storage = \<lparr> uploads = [], report_data = [], master_list = [], tick = 0 \<rparr>"

definition ocean_row :: "string \<Rightarrow> string \<Rightarrow> table_row" where
  "ocean_row u h = \<lparr> t_upload_id = u, t_status = ''active'', t_columns = [(''hb'', h)] \<rparr>"

definition row_H1 :: row where
  "row_H1 = [(''CONTAINER'', ''C1''), (''HB'', ''H1''), (''MBL'', ''M1'')]"

definition row_hb_only :: row where
  "row_hb_only = [(''CONTAINER'', ''''), (''HB'', ''H1''), (''MBL'', '''')]"

section \<open>Auxiliary notions\<close>

text \<open>A positive binary64 value: at most 53 significant bits over a last place not below
  \<open>2\<^sup>-\<^sup>1\<^sup>0\<^sup>7\<^sup>4\<close>.\<close>

definition is_rep :: "rat \<Rightarrow> bool" where
  "is_rep y = (\<exists>m e. y = of_int m * 2 powi e \<and> 0 < m \<and> m < 2 ^ 53 \<and> - 1074 \<le> e)"

text \<open>The decimal numeral of an integer.\<close>

definition int_decimal :: "int \<Rightarrow> string" where
  "int_decimal i = (if i < 0 then CHR ''-'' # digits_of (nat (- i)) else digits_of (nat i))"

section \<open>Evaluation on concrete data\<close>

lemmas str_defs = trim_def is_space_def sci_notation_def is_digit_def field_def Let_def
  toLowerCase_def has_value_def

lemmas ex_defs = diff_example_def dup_example_def keyless_example_def report_def
  blank_item_def upload_A_def upload_B_def item.defs empty_storage_def

lemmas diff_defs = getNewItemsData_def getRemovedItemsData_def detectNewItems_def
  detectRemovedItems_def prevUploadId_def hbSet_def snapshot_def

lemma normalizeHB_H1: "normalizeHB (Some ''H1'') = ''H1''"
  by (simp add: normalizeHB_def str_defs)

section \<open>Row admission\<close>

text \<open>The later \<open>cleanData\<close> keeps exactly the cleaned rows in which one of the three
  presence fields has a value, in their order.\<close>

lemma cleanData_keeps_iff:
  "r \<in> set (cleanData data) \<longleftrightarrow>
     r \<in> cleanRow ` set data \<and>
     (has_value (field r ''CONTAINER'') \<or> has_value (field r ''HB'') \<or> has_value (field r ''MBL''))"
  by (auto simp: cleanData_def)

lemma cleanData_container_only:
  "cleanData [[(''CONTAINER'', ''C1''), (''HB'', ''''), (''MBL'', '''')]]
     = [[(''CONTAINER'', ''C1''), (''HB'', ''''), (''MBL'', '''')]]"
  by (simp add: cleanData_def cleanRow_def normalizeHB_def str_defs)

lemma cleanData_all_empty:
  "cleanData [[(''CONTAINER'', ''''), (''HB'', ''''), (''MBL'', '''')]] = []"
  by (simp add: cleanData_def cleanRow_def normalizeHB_def str_defs)

text \<open>
  C1.  The row admission policy keeps a row when one of CONTAINER, HB, MBL has a value; a
  row whose HB is set is kept even when CONTAINER is empty.  The earlier \<open>cleanData\<close>
  drops the row with only an HB, which the later \<open>cleanData\<close> keeps.
\<close>

theorem cleanData_csvUtils_drops_hb_only_row:
  "cleanData_csvUtils [row_hb_only] = [] \<and> cleanData [row_hb_only] = [row_hb_only]"
  by (simp add: cleanData_csvUtils_def cleanRow_csvUtils_def cleanData_def cleanRow_def
      row_hb_only_def normalizeHB_def str_defs)

section \<open>Master list\<close>

lemma findIndex_None: "findIndex P xs = None \<longleftrightarrow> (\<forall>x\<in>set xs. \<not> P x)"
  by (induction xs) (auto split: option.splits)

lemma findIndex_Some: "findIndex P xs = Some i \<Longrightarrow> i < length xs \<and> P (xs ! i)"
  by (induction xs arbitrary: i) (auto split: option.splits if_splits)

lemma findIndex_append:
  "\<forall>x\<in>set xs. \<not> P x \<Longrightarrow> P y \<Longrightarrow> findIndex P (xs @ y # ys) = Some (length xs)"
  by (induction xs) auto

lemma hb_extend [simp]: "hb (item.extend (itemData r h) m) = h"
  by (simp add: item.defs itemData_def)

lemma truncate_extend [simp]: "item.truncate (item.extend (itemData r h) m) = itemData r h"
  by (simp add: item.defs itemData_def)

text \<open>The invariant of the catalog: one entry per key, and no empty key.\<close>

lemma reconcile_row_keys:
  assumes "distinct (map hb (fst st))" "'''' \<notin> hb ` set (fst st)"
  shows "distinct (map hb (fst (reconcile_row u st r)))
       \<and> '''' \<notin> hb ` set (fst (reconcile_row u st r))"
proof -
  obtain ml a up t where st: "st = (ml, a, up, t)" by (cases st) auto
  let ?h = "normalizeHB (field r ''HB'')"
  show ?thesis
  proof (cases "?h = ''''")
    case True
    then show ?thesis using assms by (simp add: reconcile_row_def st)
  next
    case False
    show ?thesis
    proof (cases "findIndex (\<lambda>m. hb m = ?h) ml")
      case None
      then have "?h \<notin> hb ` set ml" by (auto simp: findIndex_None)
      then show ?thesis using assms False None
        by (auto simp: reconcile_row_def st)
    next
      case (Some i)
      then have i: "i < length ml" "hb (ml ! i) = ?h" using findIndex_Some by fastforce+
      let ?e = "item.extend (itemData r ?h)
                  \<lparr> last_updated_upload_id = u, updated_at = t,
                    entry_id = entry_id (ml ! i),
                    first_seen_upload_id = first_seen_upload_id (ml ! i),
                    created_at = created_at (ml ! i) \<rparr>"
      have "map hb (ml[i := ?e]) = (map hb ml)[i := ?h]" by (simp add: map_update)
      also have "\<dots> = map hb ml" using i by (metis list_update_id nth_map)
      finally have m: "map hb (ml[i := ?e]) = map hb ml" .
      have "distinct (map hb (ml[i := ?e])) \<and> '''' \<notin> hb ` set (ml[i := ?e])"
        using assms m unfolding st by (metis fst_conv set_map)
      then show ?thesis using False Some by (simp add: reconcile_row_def st Let_def)
    qed
  qed
qed

lemma foldl_reconcile_keys:
  "distinct (map hb (fst st)) \<and> '''' \<notin> hb ` set (fst st) \<Longrightarrow>
   distinct (map hb (fst (foldl (reconcile_row u) st rows)))
   \<and> '''' \<notin> hb ` set (fst (foldl (reconcile_row u) st rows))"
proof (induction rows arbitrary: st)
  case Nil
  then show ?case by simp
next
  case (Cons r rows)
  have "distinct (map hb (fst (reconcile_row u st r)))
      \<and> '''' \<notin> hb ` set (fst (reconcile_row u st r))"
    using Cons.prems by (intro reconcile_row_keys) auto
  then show ?case using Cons.IH by simp
qed

lemma updateMasterList_keys:
  assumes "distinct (map hb (master_list s)) \<and> '''' \<notin> hb ` set (master_list s)"
  shows "distinct (map hb (master_list (fst (updateMasterList s u rows))))
       \<and> '''' \<notin> hb ` set (master_list (fst (updateMasterList s u rows)))"
proof -
  have "distinct (map hb (fst (foldl (reconcile_row u) (master_list s, 0, 0, tick s) rows)))
      \<and> '''' \<notin> hb ` set (fst (foldl (reconcile_row u) (master_list s, 0, 0, tick s) rows))"
    using assms by (intro foldl_reconcile_keys) simp
  then show ?thesis
    by (auto simp: updateMasterList_def split: prod.splits)
qed

lemma reconcile_calls_keys:
  "distinct (map hb (master_list s)) \<and> '''' \<notin> hb ` set (master_list s) \<Longrightarrow>
   distinct (map hb (master_list (reconcile_calls s calls)))
   \<and> '''' \<notin> hb ` set (master_list (reconcile_calls s calls))"
  unfolding reconcile_calls_def
proof (induction calls arbitrary: s)
  case Nil
  then show ?case by simp
next
  case (Cons c calls)
  obtain u rows where c: "c = (u, rows)" by (cases c) auto
  have "distinct (map hb (master_list (fst (updateMasterList s u rows))))
      \<and> '''' \<notin> hb ` set (master_list (fst (updateMasterList s u rows)))"
    using Cons.prems by (rule updateMasterList_keys)
  then show ?case using Cons.IH by (simp add: c)
qed

text \<open>A row whose key is in the catalog overwrites the entry and adds none.\<close>

lemma existing_key_overwritten:
  assumes "normalizeHB (field r ''HB'') \<in> hb ` set (master_list s)"
    and "normalizeHB (field r ''HB'') \<noteq> ''''"
  shows "length (master_list (fst (updateMasterList s u [r]))) = length (master_list s)
       \<and> itemData r (normalizeHB (field r ''HB''))
           \<in> item.truncate ` set (master_list (fst (updateMasterList s u [r])))
       \<and> snd (updateMasterList s u [r]) = (0, 1)"
proof -
  let ?h = "normalizeHB (field r ''HB'')"
  let ?ml = "master_list s"
  have "findIndex (\<lambda>m. hb m = ?h) ?ml \<noteq> None"
    using assms(1) by (auto simp: findIndex_None)
  then obtain i where f: "findIndex (\<lambda>m. hb m = ?h) ?ml = Some i" by auto
  then have i: "i < length ?ml" using findIndex_Some by fastforce
  let ?e = "item.extend (itemData r ?h)
              \<lparr> last_updated_upload_id = u, updated_at = tick s,
                entry_id = entry_id (?ml ! i),
                first_seen_upload_id = first_seen_upload_id (?ml ! i),
                created_at = created_at (?ml ! i) \<rparr>"
  have u: "updateMasterList s u [r] = (s\<lparr>master_list := ?ml[i := ?e], tick := tick s + 1\<rparr>, 0, 1)"
    using assms(2) f by (simp add: updateMasterList_def reconcile_row_def Let_def)
  have "?e \<in> set (?ml[i := ?e])" using i by (simp add: set_update_memI)
  then have "item.truncate ?e \<in> item.truncate ` set (?ml[i := ?e])" by (rule imageI)
  then show ?thesis using u by (simp del: set_update_memI)
qed

text \<open>
  C7.  From an empty catalog, a record with a usable key gives \<open>itemsAdded = 1\<close>,
  \<open>itemsUpdated = 0\<close>; the same record again gives \<open>itemsAdded = 0\<close>, \<open>itemsUpdated = 1\<close>;
  the catalog then has one entry, with the field values of the first call.
\<close>

theorem double_ingest:
  assumes "master_list s = []" "normalizeHB (field r ''HB'') \<noteq> ''''"
  shows "(case updateMasterList s u [r] of (s1, added1, updated1) \<Rightarrow>
           case updateMasterList s1 u [r] of (s2, added2, updated2) \<Rightarrow>
             added1 = 1 \<and> updated1 = 0 \<and> added2 = 0 \<and> updated2 = 1
           \<and> length (master_list s1) = 1 \<and> length (master_list s2) = 1
           \<and> map item.truncate (master_list s2) = map item.truncate (master_list s1)
           \<and> map item.truncate (master_list s2) = [itemData r (normalizeHB (field r ''HB''))])"
  using assms by (simp add: updateMasterList_def reconcile_row_def Let_def)

theorem double_ingest_witness:
  "master_list empty_storage = [] \<and> normalizeHB (field row_H1 ''HB'') \<noteq> '''' \<and>
   (case updateMasterList empty_storage ''u1'' [row_H1] of (s1, added1, updated1) \<Rightarrow>
      case updateMasterList s1 ''u1'' [row_H1] of (s2, added2, updated2) \<Rightarrow>
        added1 = 1 \<and> updated1 = 0 \<and> added2 = 0 \<and> updated2 = 1
      \<and> length (master_list s1) = 1 \<and> length (master_list s2) = 1
      \<and> map item.truncate (master_list s2) = map item.truncate (master_list s1)
      \<and> map item.truncate (master_list s2) = [itemData row_H1 (normalizeHB (field row_H1 ''HB''))])"
proof -
  have a: "master_list empty_storage = []" by (simp add: empty_storage_def)
  have b: "normalizeHB (field row_H1 ''HB'') \<noteq> ''''"
    by (simp add: row_H1_def field_def normalizeHB_H1)
  show ?thesis using a b double_ingest [OF a b, of "''u1''"] by simp
qed

text \<open>
  C8.  After any sequence of master-list updates from an empty catalog, no two entries
  have the same HB and no entry has an empty HB; and a further row whose key is in the
  catalog overwrites the field values of its entry without adding one.
\<close>

theorem master_list_keys_unique:
  assumes "master_list s = []"
  shows "distinct (map hb (master_list (reconcile_calls s calls)))
       \<and> '''' \<notin> hb ` set (master_list (reconcile_calls s calls))
       \<and> (normalizeHB (field r ''HB'') \<in> hb ` set (master_list (reconcile_calls s calls)) \<longrightarrow>
            length (master_list (fst (updateMasterList (reconcile_calls s calls) u [r])))
              = length (master_list (reconcile_calls s calls))
          \<and> itemData r (normalizeHB (field r ''HB''))
              \<in> item.truncate ` set (master_list (fst (updateMasterList (reconcile_calls s calls) u [r]))))"
proof -
  have "distinct (map hb (master_list s)) \<and> '''' \<notin> hb ` set (master_list s)"
    using assms by simp
  then have k: "distinct (map hb (master_list (reconcile_calls s calls)))
      \<and> '''' \<notin> hb ` set (master_list (reconcile_calls s calls))"
    by (rule reconcile_calls_keys)
  have "normalizeHB (field r ''HB'') \<noteq> ''''"
    if "normalizeHB (field r ''HB'') \<in> hb ` set (master_list (reconcile_calls s calls))"
    using that k by metis
  then show ?thesis using k existing_key_overwritten by blast
qed

theorem master_list_keys_unique_witness:
  "master_list empty_storage = [] \<and>
   distinct (map hb (master_list (reconcile_calls empty_storage [(''u1'', [row_H1, row_H1])])))
   \<and> '''' \<notin> hb ` set (master_list (reconcile_calls empty_storage [(''u1'', [row_H1, row_H1])]))
   \<and> normalizeHB (field row_H1 ''HB'')
        \<in> hb ` set (master_list (reconcile_calls empty_storage [(''u1'', [row_H1, row_H1])]))
   \<and> length (master_list (fst (updateMasterList
        (reconcile_calls empty_storage [(''u1'', [row_H1, row_H1])]) ''u2'' [row_H1]))) = 1"
proof -
  have a: "master_list empty_storage = []" by (simp add: empty_storage_def)
  have h: "normalizeHB (field row_H1 ''HB'') = ''H1''"
    by (simp add: row_H1_def field_def normalizeHB_H1)
  have m: "map hb (master_list (reconcile_calls empty_storage [(''u1'', [row_H1, row_H1])])) = [''H1'']"
    by (simp add: reconcile_calls_def updateMasterList_def reconcile_row_def h empty_storage_def Let_def)
  then have l: "length (master_list (reconcile_calls empty_storage [(''u1'', [row_H1, row_H1])])) = 1"
    by (metis length_map length_Cons list.size(3) One_nat_def)
  have i: "normalizeHB (field row_H1 ''HB'')
        \<in> hb ` set (master_list (reconcile_calls empty_storage [(''u1'', [row_H1, row_H1])]))"
    using m h by (metis list.set_intros(1) set_map)
  show ?thesis
    using a i l master_list_keys_unique [OF a, of "[(''u1'', [row_H1, row_H1])]" row_H1 "''u2''"]
    by simp
qed

section \<open>Backends\<close>

text \<open>
  C3.  The two backends are to give the same master list and the same counts.  For one
  call from an empty store with the same record twice, the local update adds one entry
  and updates it once; the remote one inserts two rows and reports two added.
\<close>

theorem backends_disagree_on_repeated_key:
  "snd (updateMasterList empty_storage ''u1'' [row_H1, row_H1]) = (1, 1)
   \<and> length (master_list (fst (updateMasterList empty_storage ''u1'' [row_H1, row_H1]))) = 1
   \<and> snd (saveMasterList False False [] [row_H1, row_H1]) = Inr (2, 0)
   \<and> length (getMasterList (fst (saveMasterList False False [] [row_H1, row_H1]))) = 2"
proof -
  have h: "normalizeHB (field row_H1 ''HB'') = ''H1''"
    by (simp add: row_H1_def field_def normalizeHB_H1)
  have l: "updateMasterList empty_storage ''u1'' [row_H1, row_H1]
      = (fst (updateMasterList empty_storage ''u1'' [row_H1, row_H1]), 1, 1)
      \<and> length (master_list (fst (updateMasterList empty_storage ''u1'' [row_H1, row_H1]))) = 1"
    by (simp add: updateMasterList_def reconcile_row_def h empty_storage_def Let_def)
  have r: "snd (saveMasterList False False [] [row_H1, row_H1]) = Inr (2, 0)
      \<and> length (getMasterList (fst (saveMasterList False False [] [row_H1, row_H1]))) = 2"
    by (simp add: saveMasterList_def getMasterList_def master_record_def row_H1_def field_def)
  from l r show ?thesis by (metis snd_conv)
qed

section \<open>New and removed records\<close>

lemma prevUploadId_unknown:
  assumes "c \<notin> uid ` set (uploads s)"
  shows "prevUploadId s c = None"
proof -
  have "findIndex (\<lambda>u. uid u = c) (uploads s) = None"
    using assms by (force simp: findIndex_None)
  then show ?thesis by (simp add: prevUploadId_def)
qed

lemma prevUploadId_first:
  assumes "uploads s = us @ [u]" "uid u = c" "c \<notin> uid ` set us"
  shows "prevUploadId s c = None"
proof -
  have "\<forall>x\<in>set us. \<not> uid x = c" using assms(3) by force
  then have "findIndex (\<lambda>u. uid u = c) (us @ u # []) = Some (length us)"
    using assms(2) by (intro findIndex_append) auto
  then show ?thesis using assms(1) by (simp add: prevUploadId_def)
qed

lemma prevUploadId_next:
  assumes "uploads s = us @ u # p # rest" "uid u = c" "c \<notin> uid ` set us"
  shows "prevUploadId s c = Some (uid p)"
proof -
  have "\<forall>x\<in>set us. \<not> uid x = c" using assms(3) by force
  then have "findIndex (\<lambda>u. uid u = c) (us @ u # p # rest) = Some (length us)"
    using assms(2) by (intro findIndex_append) auto
  then show ?thesis using assms(1) by (simp add: prevUploadId_def nth_append)
qed

lemma hbSet_snapshot: "hbSet s u = hb ` {r \<in> set (snapshot s u). hb r \<noteq> ''''}"
  by (auto simp: hbSet_def snapshot_def)

lemma new_keys:
  "hb ` set (filter (\<lambda>r. hb r \<noteq> '''' \<and> hb r \<notin> hbSet s p) (snapshot s c)) = hbSet s c - hbSet s p"
  by (auto simp: hbSet_snapshot)

lemma uploads_drop_keyless: "uploads (drop_keyless s) = uploads s"
  by (simp add: drop_keyless_def)

lemma prevUploadId_drop_keyless: "prevUploadId (drop_keyless s) c = prevUploadId s c"
  unfolding prevUploadId_def uploads_drop_keyless ..

lemma hbSet_drop_keyless: "hbSet (drop_keyless s) u = hbSet s u"
  by (auto simp: hbSet_def drop_keyless_def)

text \<open>
  C4.  With an upload \<open>p\<close> right before the current one: the new records are the records
  of the current snapshot whose key is not empty and is not a key of the snapshot of
  \<open>p\<close>; the removed records are those of the snapshot of \<open>p\<close> whose key is not empty and
  is not a key of the current snapshot; each count is the number of distinct keys among
  these records, which is their number when their keys are pairwise distinct.
\<close>

theorem diff_with_predecessor:
  assumes "uploads s = us @ u # p # rest" "uid u = c" "c \<notin> uid ` set us"
  shows "getNewItemsData s c =
           filter (\<lambda>r. hb r \<noteq> '''' \<and> hb r \<notin> hb ` set (snapshot s (uid p))) (snapshot s c)
       \<and> getRemovedItemsData s c =
           filter (\<lambda>r. hb r \<noteq> '''' \<and> hb r \<notin> hb ` set (snapshot s c)) (snapshot s (uid p))
       \<and> detectNewItems s c = card (hb ` set (getNewItemsData s c))
       \<and> detectRemovedItems s c = card (hb ` set (getRemovedItemsData s c))
       \<and> (distinct (map hb (getNewItemsData s c)) \<longrightarrow>
            detectNewItems s c = length (getNewItemsData s c))
       \<and> (distinct (map hb (getRemovedItemsData s c)) \<longrightarrow>
            detectRemovedItems s c = length (getRemovedItemsData s c))"
proof -
  have prev: "prevUploadId s c = Some (uid p)"
    using assms by (rule prevUploadId_next)
  have n: "getNewItemsData s c
      = filter (\<lambda>r. hb r \<noteq> '''' \<and> hb r \<notin> hb ` set (snapshot s (uid p))) (snapshot s c)"
    unfolding getNewItemsData_def prev
    by (auto simp: hbSet_snapshot intro!: filter_cong)
  have r: "getRemovedItemsData s c
      = filter (\<lambda>r. hb r \<noteq> '''' \<and> hb r \<notin> hb ` set (snapshot s c)) (snapshot s (uid p))"
    unfolding getRemovedItemsData_def prev
    by (auto simp: hbSet_snapshot intro!: filter_cong)
  have cn: "detectNewItems s c = card (hb ` set (getNewItemsData s c))"
    unfolding detectNewItems_def getNewItemsData_def prev by (simp only: option.case new_keys)
  have cr: "detectRemovedItems s c = card (hb ` set (getRemovedItemsData s c))"
    unfolding detectRemovedItems_def getRemovedItemsData_def prev
    by (simp only: option.case new_keys)
  have dn: "distinct (map hb (getNewItemsData s c)) \<longrightarrow>
            detectNewItems s c = length (getNewItemsData s c)"
    using cn distinct_card[of "map hb (getNewItemsData s c)"] by auto
  have dr: "distinct (map hb (getRemovedItemsData s c)) \<longrightarrow>
            detectRemovedItems s c = length (getRemovedItemsData s c)"
    using cr distinct_card[of "map hb (getRemovedItemsData s c)"] by auto
  from n r cn cr dn dr show ?thesis by blast
qed

text \<open>Upload A with the keys 1, 2, 3 and then B with 2, 3, 4: the record with key 4 is
  new, the one with key 1 is removed, and each count is 1.\<close>

theorem diff_with_predecessor_witness:
  "uploads diff_example = [] @ upload_B # upload_A # [] \<and> uid upload_B = ''B''
   \<and> ''B'' \<notin> uid ` set []
   \<and> getNewItemsData diff_example ''B'' = [report 6 ''B'' ''4'']
   \<and> getRemovedItemsData diff_example ''B'' = [report 1 ''A'' ''1'']
   \<and> detectNewItems diff_example ''B'' = 1
   \<and> detectRemovedItems diff_example ''B'' = 1"
proof -
  have a: "uploads diff_example = [] @ upload_B # upload_A # []"
    by (simp add: diff_example_def)
  have b: "uid upload_B = ''B''" by (simp add: upload_B_def)
  have c: "''B'' \<notin> uid ` set []" by simp
  have n: "filter (\<lambda>r. hb r \<noteq> '''' \<and> hb r \<notin> hb ` set (snapshot diff_example (uid upload_A)))
             (snapshot diff_example ''B'') = [report 6 ''B'' ''4'']"
    by (simp add: snapshot_def ex_defs)
  have r: "filter (\<lambda>r. hb r \<noteq> '''' \<and> hb r \<notin> hb ` set (snapshot diff_example ''B''))
             (snapshot diff_example (uid upload_A)) = [report 1 ''A'' ''1'']"
    by (simp add: snapshot_def ex_defs)
  show ?thesis
    using a b diff_with_predecessor [OF a b c] n r by simp
qed

text \<open>
  The claim C4 as it is written fails where a key repeats within a snapshot or is empty:
  with the key 4 on two rows of B, two records are new and the count is 1; and the row of
  B without HB, whose key is no key of A, is not among the new records.
\<close>

theorem diff_counts_counterexample:
  "length (getNewItemsData dup_example ''B'') = 2
   \<and> detectNewItems dup_example ''B'' = 1
   \<and> report 4 ''B'' '''' \<in> set (snapshot dup_example ''B'')
   \<and> hb (report 4 ''B'' '''') \<notin> hb ` set (snapshot dup_example ''A'')
   \<and> report 4 ''B'' '''' \<notin> set (getNewItemsData dup_example ''B'')"
  by (simp add: diff_defs ex_defs)

text \<open>
  C5.  For the first upload ever, the oldest of the list and with no upload before it,
  the new records are all its records, their count is the number of its records, no
  record is removed and the removed count is 0.
\<close>

theorem first_upload_diff:
  assumes "uploads s = us @ [u]" "uid u = c" "c \<notin> uid ` set us"
  shows "getNewItemsData s c = filter (\<lambda>r. upload_id r = c) (report_data s)
       \<and> detectNewItems s c = length (filter (\<lambda>r. upload_id r = c) (report_data s))
       \<and> getRemovedItemsData s c = []
       \<and> detectRemovedItems s c = 0"
  using prevUploadId_first[OF assms]
  by (simp add: getNewItemsData_def detectNewItems_def getRemovedItemsData_def
      detectRemovedItems_def snapshot_def)

theorem first_upload_diff_witness:
  "uploads diff_example = [upload_B] @ [upload_A] \<and> uid upload_A = ''A''
   \<and> ''A'' \<notin> uid ` set [upload_B]
   \<and> getNewItemsData diff_example ''A'' = [report 1 ''A'' ''1'', report 2 ''A'' ''2'', report 3 ''A'' ''3'']
   \<and> detectNewItems diff_example ''A'' = 3
   \<and> getRemovedItemsData diff_example ''A'' = []
   \<and> detectRemovedItems diff_example ''A'' = 0"
proof -
  have a: "uploads diff_example = [upload_B] @ [upload_A]" by (simp add: diff_example_def)
  have b: "uid upload_A = ''A''" by (simp add: upload_A_def)
  have c: "''A'' \<notin> uid ` set [upload_B]" by (simp add: upload_B_def)
  have f: "filter (\<lambda>r. upload_id r = ''A'') (report_data diff_example)
             = [report 1 ''A'' ''1'', report 2 ''A'' ''2'', report 3 ''A'' ''3'']"
    by (simp add: ex_defs)
  show ?thesis using a b c first_upload_diff [OF a b c] f by simp
qed

text \<open>
  C10.  A current upload id that is not in the list of uploads is treated like a first
  upload: the new records are all the records stored under that id, their count is the
  number of these records, no record is removed and the removed count is 0.
\<close>

theorem unknown_upload_diff:
  assumes "c \<notin> uid ` set (uploads s)"
  shows "getNewItemsData s c = filter (\<lambda>r. upload_id r = c) (report_data s)
       \<and> detectNewItems s c = length (filter (\<lambda>r. upload_id r = c) (report_data s))
       \<and> getRemovedItemsData s c = []
       \<and> detectRemovedItems s c = 0"
  using prevUploadId_unknown[OF assms]
  by (simp add: getNewItemsData_def detectNewItems_def getRemovedItemsData_def
      detectRemovedItems_def snapshot_def)

text \<open>The upload B, once A alone is left in the list of uploads, is unknown; its three
  records are still stored.\<close>

theorem unknown_upload_diff_witness:
  "''B'' \<notin> uid ` set (uploads (diff_example\<lparr>uploads := [upload_A]\<rparr>))
   \<and> getNewItemsData (diff_example\<lparr>uploads := [upload_A]\<rparr>) ''B''
       = [report 4 ''B'' ''2'', report 5 ''B'' ''3'', report 6 ''B'' ''4'']
   \<and> detectNewItems (diff_example\<lparr>uploads := [upload_A]\<rparr>) ''B'' = 3
   \<and> getRemovedItemsData (diff_example\<lparr>uploads := [upload_A]\<rparr>) ''B'' = []
   \<and> detectRemovedItems (diff_example\<lparr>uploads := [upload_A]\<rparr>) ''B'' = 0"
proof -
  have a: "''B'' \<notin> uid ` set (uploads (diff_example\<lparr>uploads := [upload_A]\<rparr>))"
    by (simp add: upload_A_def)
  have f: "filter (\<lambda>r. upload_id r = ''B'') (report_data (diff_example\<lparr>uploads := [upload_A]\<rparr>))
             = [report 4 ''B'' ''2'', report 5 ''B'' ''3'', report 6 ''B'' ''4'']"
    by (simp add: ex_defs)
  show ?thesis using a unknown_upload_diff [OF a] f by simp
qed

text \<open>
  C6.  A record without HB is never among the removed records and never counted as
  removed; for an upload that has an upload before it, such a record is never among the
  new records either, locally and remotely, and never counted as new.  For an upload with
  none before it the new records are all its records, and all are counted.  A count
  ignores the records without HB when it is the same on the storage without them.
\<close>

theorem keyless_excluded:
  "(\<forall>r\<in>set (getRemovedItemsData s c). hb r \<noteq> '''')
   \<and> detectRemovedItems (drop_keyless s) c = detectRemovedItems s c
   \<and> (prevUploadId s c \<noteq> None \<longrightarrow>
        (\<forall>r\<in>set (getNewItemsData s c). hb r \<noteq> '''')
        \<and> detectNewItems (drop_keyless s) c = detectNewItems s c)
   \<and> (prevUploadId s c = None \<longrightarrow>
        getNewItemsData s c = snapshot s c \<and> detectNewItems s c = length (snapshot s c))
   \<and> (findIndex (\<lambda>u. uid u = c) ups = Some i \<and> int i < int (length ups) - 1 \<longrightarrow>
        (\<forall>r\<in>set (getNewItemsData_supabase ups tbl c). row_key r \<noteq> None))"
  by (auto simp: getRemovedItemsData_def getNewItemsData_def detectRemovedItems_def
      detectNewItems_def prevUploadId_drop_keyless hbSet_drop_keyless
      getNewItemsData_supabase_def Let_def split: option.splits)

theorem keyless_excluded_witness:
  "prevUploadId dup_example ''B'' \<noteq> None
   \<and> prevUploadId keyless_example ''A'' = None
   \<and> findIndex (\<lambda>u. uid u = ''B'') [upload_B, upload_A] = Some 0
   \<and> int 0 < int (length [upload_B, upload_A]) - 1
   \<and> report 4 ''B'' '''' \<in> set (report_data dup_example)
   \<and> report 4 ''B'' '''' \<notin> set (getNewItemsData dup_example ''B'')
   \<and> report 4 ''B'' '''' \<notin> set (getRemovedItemsData dup_example ''B'')
   \<and> detectNewItems (drop_keyless dup_example) ''B'' = detectNewItems dup_example ''B''
   \<and> detectRemovedItems (drop_keyless dup_example) ''B'' = detectRemovedItems dup_example ''B''
   \<and> getNewItemsData keyless_example ''A'' = snapshot keyless_example ''A''
   \<and> ocean_row ''B'' ''''
        \<notin> set (getNewItemsData_supabase [upload_B, upload_A]
                   [ocean_row ''A'' ''1'', ocean_row ''B'' ''4'', ocean_row ''B'' ''''] ''B'')"
proof -
  have p: "prevUploadId dup_example ''B'' \<noteq> None"
    by (simp add: prevUploadId_def ex_defs)
  have q: "prevUploadId keyless_example ''A'' = None"
    by (simp add: prevUploadId_def ex_defs)
  have f: "findIndex (\<lambda>u. uid u = ''B'') [upload_B, upload_A] = Some 0
      \<and> int 0 < int (length [upload_B, upload_A]) - 1"
    by (simp add: ex_defs)
  have m: "report 4 ''B'' '''' \<in> set (report_data dup_example)"
    by (simp add: ex_defs)
  have k: "hb (report 4 ''B'' '''') = ''''" by (simp add: ex_defs)
  have n: "row_key (ocean_row ''B'' '''') = None"
    by (simp add: row_key_def ocean_row_def field_def or_null_def)
  note t = keyless_excluded [of dup_example "''B''" "[upload_B, upload_A]" 0
      "[ocean_row ''A'' ''1'', ocean_row ''B'' ''4'', ocean_row ''B'' '''']"]
  note t' = keyless_excluded [of keyless_example "''A''" "[]" 0 "[]"]
  have 1: "report 4 ''B'' '''' \<notin> set (getNewItemsData dup_example ''B'')
      \<and> report 4 ''B'' '''' \<notin> set (getRemovedItemsData dup_example ''B'')
      \<and> detectNewItems (drop_keyless dup_example) ''B'' = detectNewItems dup_example ''B''
      \<and> detectRemovedItems (drop_keyless dup_example) ''B'' = detectRemovedItems dup_example ''B''"
    using t p k by blast
  have 2: "getNewItemsData keyless_example ''A'' = snapshot keyless_example ''A''"
    using t' q by blast
  have 3: "ocean_row ''B'' ''''
        \<notin> set (getNewItemsData_supabase [upload_B, upload_A]
                   [ocean_row ''A'' ''1'', ocean_row ''B'' ''4'', ocean_row ''B'' ''''] ''B'')"
    using t f n by blast
  show ?thesis using p q f m 1 2 3 by blast
qed

text \<open>
  The claim C6 as it is written fails for an upload with none before it: the row of A
  without HB is among its new records and is counted, locally and remotely.
\<close>

theorem keyless_first_upload_counterexample:
  "hb (report 2 ''A'' '''') = ''''
   \<and> report 2 ''A'' '''' \<in> set (getNewItemsData keyless_example ''A'')
   \<and> detectNewItems keyless_example ''A'' = 2
   \<and> detectNewItems (drop_keyless keyless_example) ''A'' = 1
   \<and> row_key (ocean_row ''A'' '''') = None
   \<and> ocean_row ''A'' ''''
        \<in> set (getNewItemsData_supabase [upload_A] [ocean_row ''A'' ''1'', ocean_row ''A'' ''''] ''A'')"
  by (simp add: diff_defs drop_keyless_def ex_defs getNewItemsData_supabase_def row_key_def
      ocean_row_def field_def or_null_def)

section \<open>Binary64 rounding\<close>

subsection \<open>The binary exponent\<close>

lemma two_powi_pos [simp]: "0 < (2::rat) powi n"
  by simp

lemma two_powi_add: "(2::rat) powi (m + n) = 2 powi m * 2 powi n"
  by (simp add: power_int_add)

lemma two_powi_less: "m < n \<Longrightarrow> (2::rat) powi m < 2 powi n"
  by (simp add: power_int_strict_increasing)

lemma two_powi_le: "m \<le> n \<Longrightarrow> (2::rat) powi m \<le> 2 powi n"
  by (simp add: power_int_increasing)

lemma two_powi_less_cancel: "(2::rat) powi m < 2 powi n \<Longrightarrow> m < n"
  by (metis not_le two_powi_le)

lemma pow2_le_of_int: "0 \<le> k \<Longrightarrow> 2 ^ nat k \<le> a \<Longrightarrow> (2::rat) powi k \<le> of_int a"
proof -
  assume k: "0 \<le> k" and "2 ^ nat k \<le> a"
  then have "(of_int (2 ^ nat k) :: rat) \<le> of_int a" by (simp only: of_int_le_iff)
  then show ?thesis using k by (simp add: power_int_nonneg_exp)
qed

lemma of_int_less_pow2: "0 \<le> k \<Longrightarrow> a < 2 ^ nat k \<Longrightarrow> of_int a < (2::rat) powi k"
proof -
  assume k: "0 \<le> k" and "a < 2 ^ nat k"
  then have "(of_int a :: rat) < of_int (2 ^ nat k)" by (simp only: of_int_less_iff)
  then show ?thesis using k by (simp add: power_int_nonneg_exp)
qed

lemma ilog2_bounds:
  assumes "0 < q"
  shows "2 powi (ilog2 q) \<le> q \<and> q < 2 powi (ilog2 q + 1)"
proof -
  obtain a b where ab: "quotient_of q = (a, b)" by (cases "quotient_of q") auto
  have b: "0 < b" using ab by (rule quotient_of_denom_pos)
  have q: "q = of_int a / of_int b" using ab by (rule quotient_of_div)
  have a: "0 < a" using assms b q by (simp add: zero_less_divide_iff)
  let ?la = "bitlen a" and ?lb = "bitlen b"
  have la: "1 \<le> ?la" "1 \<le> ?lb" using a b by (simp_all add: bitlen_alt_def)
  from bitlen_bounds[OF a] have a1: "2 ^ nat (?la - 1) \<le> a" and a2: "a < 2 ^ nat ?la" by auto
  from bitlen_bounds[OF b] have b1: "2 ^ nat (?lb - 1) \<le> b" and b2: "b < 2 ^ nat ?lb" by auto
  have ra1: "(2::rat) powi (?la - 1) \<le> of_int a"
    using a1 la by (intro pow2_le_of_int) auto
  have ra2: "of_int a < (2::rat) powi ?la"
    using a2 la by (intro of_int_less_pow2) auto
  have rb1: "(2::rat) powi (?lb - 1) \<le> of_int b"
    using b1 la by (intro pow2_le_of_int) auto
  have rb2: "of_int b < (2::rat) powi ?lb"
    using b2 la by (intro of_int_less_pow2) auto
  let ?l = "?la - ?lb"
  have up: "q < 2 powi (?l + 1)"
  proof -
    have "q * of_int b = of_int a" using q b by simp
    also have "\<dots> < 2 powi ?la" by (rule ra2)
    also have "\<dots> = (2::rat) powi (?l + 1) * 2 powi (?lb - 1)"
      by (simp add: two_powi_add[symmetric])
    also have "\<dots> \<le> 2 powi (?l + 1) * of_int b"
      using rb1 by (simp add: mult_left_mono)
    finally show ?thesis using b by simp
  qed
  have lo: "2 powi (?l - 1) < q"
  proof -
    have "(2::rat) powi (?l - 1) * of_int b < 2 powi (?l - 1) * 2 powi ?lb"
      using rb2 by (simp add: mult_strict_left_mono)
    also have "\<dots> = 2 powi (?la - 1)" by (simp add: two_powi_add[symmetric])
    also have "\<dots> \<le> of_int a" by (rule ra1)
    also have "\<dots> = q * of_int b" using q b by simp
    finally show ?thesis using b by simp
  qed
  show ?thesis
  proof (cases "2 powi ?l \<le> q")
    case True
    then show ?thesis using up by (simp add: ilog2_def ab)
  next
    case False
    then have "ilog2 q = ?l - 1" by (simp add: ilog2_def ab)
    then show ?thesis using False lo by simp
  qed
qed

subsection \<open>Rounding to an integer\<close>

lemma round_half_even_of_int [simp]: "round_half_even (of_int m) = m"
  by (simp add: round_half_even_def)

lemma round_half_even_ge:
  assumes "of_int a \<le> x"
  shows "a \<le> round_half_even x"
proof -
  have "a \<le> \<lfloor>x\<rfloor>" using assms by (simp add: le_floor_iff)
  then show ?thesis by (auto simp: round_half_even_def Let_def)
qed

lemma round_half_even_le:
  assumes "x \<le> of_int b"
  shows "round_half_even x \<le> b"
proof (cases "x \<in> \<int>")
  case True
  then obtain n where n: "x = of_int n" by (rule Ints_cases)
  have "n \<le> b" using assms unfolding n by (simp only: of_int_le_iff)
  then show ?thesis unfolding n by (simp only: round_half_even_of_int)
next
  case False
  have "\<lfloor>x\<rfloor> < b"
  proof (rule ccontr)
    assume "\<not> \<lfloor>x\<rfloor> < b"
    then have "b \<le> \<lfloor>x\<rfloor>" by simp
    then have "of_int b \<le> x" by (simp add: le_floor_iff)
    then have "x = of_int b" using assms by (rule order_antisym[rotated])
    then show False using False by simp
  qed
  then have "\<lfloor>x\<rfloor> + 1 \<le> b" by simp
  then show ?thesis by (auto simp: round_half_even_def Let_def)
qed

subsection \<open>Values that rounding leaves alone\<close>

lemma two_powi_diff: "(2::rat) powi (m - n) = 2 powi m / 2 powi n"
  by (simp add: power_int_diff)

lemma two_powi_cancel: "(2::rat) powi (m - n) * 2 powi n = 2 powi m"
  by (simp add: two_powi_diff)

lemma two_powi_neg: "(2::rat) powi (- n) = 1 / 2 powi n"
  by (simp add: power_int_minus_divide)

lemma round_pos_exact:
  assumes m: "0 < m" "m < 2 ^ 53" and e: "- 1074 \<le> e"
  shows "round_pos (of_int m * 2 powi e) = of_int m * 2 powi e"
proof -
  define q :: rat where "q = of_int m * 2 powi e"
  have q: "0 < q" using m by (simp add: q_def)
  have "(of_int m :: rat) < of_int (2 ^ 53)" using m(2) by (simp only: of_int_less_iff)
  then have "(of_int m :: rat) < 2 powi 53" by simp
  then have "q < 2 powi 53 * 2 powi e" unfolding q_def
    by (intro mult_strict_right_mono) simp_all
  also have "\<dots> = 2 powi (53 + e)" by (simp only: two_powi_add)
  finally have "2 powi (ilog2 q) < (2::rat) powi (53 + e)"
    using ilog2_bounds[OF q] by (meson le_less_trans)
  then have l: "ilog2 q < 53 + e" by (rule two_powi_less_cancel)
  define e' where "e' = max (ilog2 q - 52) (- 1074)"
  have e': "e' \<le> e" using l e by (simp add: e'_def)
  define k where "k = nat (e - e')"
  have k: "(2::rat) powi (e - e') = 2 ^ k" using e' by (simp add: k_def power_int_nonneg_exp)
  have "q * 2 powi (- e') = of_int m * (2 powi e * 2 powi (- e'))"
    by (simp add: q_def)
  also have "2 powi e * (2::rat) powi (- e') = 2 powi (e - e')"
    by (simp only: two_powi_diff two_powi_neg times_divide_eq_right mult_1_right)
  finally have "q * 2 powi (- e') = of_int (m * 2 ^ k)" by (simp add: k)
  then have "round_half_even (q * 2 powi (- e')) = m * 2 ^ k"
    by (simp only: round_half_even_of_int)
  then have "round_pos q = of_int (m * 2 ^ k) * 2 powi e'"
    by (simp add: round_pos_def e'_def Let_def)
  also have "\<dots> = of_int m * (2 powi (e - e') * 2 powi e')"
    by (simp add: k)
  also have "\<dots> = q" by (simp only: two_powi_cancel q_def)
  finally show ?thesis by (simp only: q_def)
qed

lemma round_pos_is_rep: "is_rep y \<Longrightarrow> round_pos y = y"
  by (auto simp: is_rep_def round_pos_exact)

lemma is_rep_pos: "is_rep y \<Longrightarrow> 0 < y"
  by (auto simp: is_rep_def)

lemma round_pos_form:
  assumes "0 < q"
  shows "\<exists>M e. round_pos q = of_int M * 2 powi e \<and> 0 \<le> M \<and> M \<le> 2 ^ 53
       \<and> e = max (ilog2 q - 52) (- 1074) \<and> M = round_half_even (q * 2 powi (- e))"
proof -
  define e where "e = max (ilog2 q - 52) (- 1074)"
  define M where "M = round_half_even (q * 2 powi (- e))"
  have r: "round_pos q = of_int M * 2 powi e"
    by (simp add: round_pos_def e_def M_def Let_def)
  have e: "- 1074 \<le> e" "ilog2 q - 52 \<le> e" by (simp_all add: e_def)
  have "q * 2 powi (- e) < 2 powi (ilog2 q + 1) * 2 powi (- e)"
    using ilog2_bounds[OF assms] by (intro mult_strict_right_mono) simp_all
  also have "\<dots> = 2 powi (ilog2 q + 1 + - e)" by (simp only: two_powi_add)
  also have "\<dots> \<le> 2 powi 53" using e by (intro two_powi_le) simp
  finally have "q * 2 powi (- e) \<le> of_int (2 ^ 53)" by simp
  then have M2: "M \<le> 2 ^ 53" unfolding M_def by (rule round_half_even_le)
  have "of_int 0 \<le> q * 2 powi (- e)" using assms by simp
  then have M0: "0 \<le> M" unfolding M_def by (rule round_half_even_ge)
  show ?thesis using r M0 M2 e_def M_def by blast
qed

lemma round_pos_range:
  assumes "0 < q"
  shows "round_pos q = 0 \<or> is_rep (round_pos q)"
proof -
  obtain M e where r: "round_pos q = of_int M * 2 powi e" and M: "0 \<le> M" "M \<le> 2 ^ 53"
    and e: "e = max (ilog2 q - 52) (- 1074)"
    using round_pos_form[OF assms] by blast
  have e1: "- 1074 \<le> e" by (simp add: e)
  consider "M = 0" | "0 < M" "M < 2 ^ 53" | "M = 2 ^ 53" using M by linarith
  then show ?thesis
  proof cases
    case 1
    then show ?thesis using r by simp
  next
    case 2
    then show ?thesis using r e1 unfolding is_rep_def by blast
  next
    case 3
    have "(2::rat) powi (e + 1) = 2 powi e * 2" by (simp only: two_powi_add) simp
    then have "round_pos q = of_int (2 ^ 52) * 2 powi (e + 1)"
      using r 3 by simp
    moreover have "(0::int) < 2 ^ 52" "(2::int) ^ 52 < 2 ^ 53" "- 1074 \<le> e + 1"
      using e1 by simp_all
    ultimately show ?thesis unfolding is_rep_def by blast
  qed
qed

lemma to_double_neg: "to_double (- q) = negate (to_double q)"
  by (auto simp: to_double_def negate_def Let_def)

lemma to_double_range:
  assumes "to_double q = Fin y"
  shows "to_double y = Fin y"
proof -
  have pos: "to_double y = Fin y" if "0 < q" "to_double q = Fin y" for q y
  proof (cases "round_pos q = 0")
    case True
    then show ?thesis using that by (auto simp: to_double_def Let_def)
  next
    case False
    then have y: "y = round_pos q" "\<not> 1024 \<le> ilog2 y"
      using that by (auto simp: to_double_def Let_def split: if_splits)
    have rep: "is_rep y" using round_pos_range[OF that(1)] False y by simp
    then have "round_pos y = y" "0 < y" by (simp_all add: round_pos_is_rep is_rep_pos)
    then show ?thesis using y by (simp add: to_double_def Let_def)
  qed
  show ?thesis
  proof (cases "0 < q")
    case True
    then show ?thesis using assms pos by blast
  next
    case False
    show ?thesis
    proof (cases "q = 0")
      case True
      then show ?thesis using assms by (simp add: to_double_def)
    next
      case False
      then have q: "0 < - q" using \<open>\<not> 0 < q\<close> by simp
      have "to_double (- q) = Fin (- y)" using assms by (simp add: to_double_neg negate_def)
      then have "to_double (- y) = Fin (- y)" using pos[OF q] by blast
      then have "negate (to_double y) = Fin (- y)" by (simp only: to_double_neg)
      then show ?thesis by (cases "to_double y") (simp_all add: negate_def)
    qed
  qed
qed

subsection \<open>Integers\<close>

lemma ilog2_less: "0 < y \<Longrightarrow> y < 2 powi n \<Longrightarrow> ilog2 y < n"
proof -
  assume y: "0 < y" "y < 2 powi n"
  have "2 powi (ilog2 y) \<le> y" using ilog2_bounds[OF y(1)] by simp
  then have "2 powi (ilog2 y) < (2::rat) powi n" using y(2) by simp
  then show ?thesis by (rule two_powi_less_cancel)
qed

lemma ilog2_ge: "0 < y \<Longrightarrow> 2 powi n \<le> y \<Longrightarrow> n \<le> ilog2 y"
proof -
  assume y: "0 < y" "2 powi n \<le> y"
  have "y < 2 powi (ilog2 y + 1)" using ilog2_bounds[OF y(1)] by simp
  then have "2 powi n < (2::rat) powi (ilog2 y + 1)" using y(2) by simp
  then have "n < ilog2 y + 1" by (rule two_powi_less_cancel)
  then show ?thesis by simp
qed

lemma to_double_pos:
  "0 < q \<Longrightarrow> round_pos q = q \<Longrightarrow> q < 2 powi 1024 \<Longrightarrow> to_double q = Fin q"
  using ilog2_less[of q 1024] by (simp add: to_double_def Let_def)

text \<open>Every integer of magnitude below \<open>2\<^sup>5\<^sup>3\<close> is a binary64 value.\<close>

lemma to_double_safe_nat:
  assumes "n < 2 ^ 53"
  shows "to_double (of_nat n) = Fin (of_nat n)"
proof (cases "n = 0")
  case True
  then show ?thesis by (simp add: to_double_def)
next
  case False
  have i: "0 < int n" "int n < 2 ^ 53" using False assms by simp_all
  have "round_pos (of_int (int n) * 2 powi 0) = of_int (int n) * 2 powi 0"
    using i by (intro round_pos_exact) simp_all
  then have r: "round_pos (of_nat n) = of_nat n" by simp
  have "(of_nat n :: rat) < of_nat (2 ^ 53)" using assms by (simp only: of_nat_less_iff)
  also have "\<dots> < 2 powi 1024" by simp
  finally have "(of_nat n :: rat) < 2 powi 1024" .
  then show ?thesis using False r by (intro to_double_pos) simp_all
qed

lemma to_double_safe_int:
  assumes "\<bar>i\<bar> < 2 ^ 53"
  shows "to_double (of_int i) = Fin (of_int i)"
proof (cases "0 \<le> i")
  case True
  then have "nat i < 2 ^ 53" using assms by (simp add: nat_less_iff)
  then have "to_double (of_nat (nat i)) = Fin (of_nat (nat i))" by (rule to_double_safe_nat)
  then show ?thesis using True by simp
next
  case False
  then have "nat (- i) < 2 ^ 53" using assms by (simp add: nat_less_iff)
  then have "to_double (of_nat (nat (- i))) = Fin (of_nat (nat (- i)))" by (rule to_double_safe_nat)
  then have "to_double (- of_int i) = Fin (- of_int i)" using False by simp
  then have "negate (to_double (of_int i)) = Fin (- of_int i)" by (simp only: to_double_neg)
  then show ?thesis by (cases "to_double (of_int i :: rat)") (simp_all add: negate_def)
qed

text \<open>Rounding does not take a value from \<open>2\<^sup>5\<^sup>3\<close> on below \<open>2\<^sup>5\<^sup>3\<close>.\<close>

lemma round_pos_large:
  assumes "2 ^ 53 \<le> q"
  shows "2 ^ 53 \<le> round_pos q"
proof -
  have q: "0 < q" using assms by (rule less_le_trans[rotated]) simp
  obtain M e where r: "round_pos q = of_int M * 2 powi e"
    and e: "e = max (ilog2 q - 52) (- 1074)"
    and M: "M = round_half_even (q * 2 powi (- e))"
    using round_pos_form[OF q] by blast
  have "(2::rat) powi 53 \<le> q" using assms by simp
  then have l: "53 \<le> ilog2 q" using q by (intro ilog2_ge)
  then have e2: "e = ilog2 q - 52" by (simp add: e)
  have "(2::rat) powi 52 = 2 powi (ilog2 q + - e)" by (simp add: e2)
  also have "\<dots> = 2 powi (ilog2 q) * 2 powi (- e)" by (simp only: two_powi_add)
  also have "\<dots> \<le> q * 2 powi (- e)"
    using ilog2_bounds[OF q] by (intro mult_right_mono) simp_all
  finally have "of_int (2 ^ 52) \<le> q * 2 powi (- e)" by simp
  then have M52: "2 ^ 52 \<le> M" unfolding M by (rule round_half_even_ge)
  have "(2::rat) powi 1 \<le> 2 powi e" using l e2 by (intro two_powi_le) simp
  then have e1: "(2::rat) \<le> 2 powi e" by simp
  have "(2::rat) ^ 53 = of_int (2 ^ 52) * 2" by simp
  also have "\<dots> \<le> of_int M * 2" using M52 by (simp only: of_int_le_iff mult_le_cancel_right) simp
  also have "\<dots> \<le> of_int M * 2 powi e"
    using e1 M52 by (intro mult_left_mono) simp_all
  finally show ?thesis using r by simp
qed

lemma to_double_large_nat:
  assumes "2 ^ 53 \<le> n" "to_double (of_nat n) = Fin y"
  shows "2 ^ 53 \<le> y"
proof -
  have "(of_nat (2 ^ 53) :: rat) \<le> of_nat n" using assms(1) by (simp only: of_nat_le_iff)
  then have n: "(2::rat) ^ 53 \<le> of_nat n" by simp
  then have "2 ^ 53 \<le> round_pos (of_nat n)" by (rule round_pos_large)
  moreover have "0 < (of_nat n :: rat)" using n by (rule less_le_trans[rotated]) simp
  ultimately show ?thesis using assms(2)
    by (auto simp: to_double_def Let_def split: if_splits)
qed

lemma to_double_above_safe:
  assumes "y < 2 ^ 53" "y < n"
  shows "to_double (of_nat n) \<noteq> Fin (of_nat y)"
proof (cases "n < 2 ^ 53")
  case True
  then have "to_double (of_nat n) = Fin (of_nat n)" by (rule to_double_safe_nat)
  then show ?thesis using assms(2) by simp
next
  case False
  show ?thesis
  proof
    assume a: "to_double (of_nat n) = Fin (of_nat y)"
    have "2 ^ 53 \<le> (of_nat y :: rat)" using False a by (intro to_double_large_nat[of n]) simp_all
    then have "(of_nat (2 ^ 53) :: rat) \<le> of_nat y" by simp
    then have "2 ^ 53 \<le> y" by (simp only: of_nat_le_iff)
    then show False using assms(1) by simp
  qed
qed

subsection \<open>The shortest decimal\<close>

lemma shortest_at_sound:
  assumes "shortest_at y j = Some x"
  shows "to_double (of_nat x) = Fin (of_nat y) \<and> 0 < x"
  using assms by (auto simp: shortest_at_def Let_def split: if_splits)

lemma shortest_at_0:
  assumes "to_double (of_nat y) = Fin (of_nat y)" "0 < y"
  shows "shortest_at y 0 \<noteq> None"
  using assms by (simp add: shortest_at_def Let_def)

lemma shortest_scan_sound:
  "shortest_scan y j = Some x \<Longrightarrow> to_double (of_nat x) = Fin (of_nat y) \<and> 0 < x"
  by (induction j) (auto dest: shortest_at_sound split: option.splits)

lemma shortest_scan_total:
  assumes "to_double (of_nat y) = Fin (of_nat y)" "0 < y"
  shows "shortest_scan y j \<noteq> None"
  using shortest_at_0[OF assms] by (induction j) (auto split: option.splits)

text \<open>The decimal printed for a positive integer that is a binary64 value reads back as
  that value.\<close>

lemma shortest_decimal_sound:
  assumes "to_double (of_nat y) = Fin (of_nat y)" "0 < y"
  shows "to_double (of_nat (shortest_decimal y)) = Fin (of_nat y) \<and> 0 < shortest_decimal y"
proof -
  obtain x where x: "shortest_scan y (length (digits_of y)) = Some x"
    using shortest_scan_total[OF assms] by auto
  then show ?thesis using shortest_scan_sound[OF x] by (simp add: shortest_decimal_def)
qed

lemma shortest_at_safe:
  assumes "0 < y" "y < 2 ^ 53"
  shows "shortest_at y j = (if (y div 10 ^ j) * 10 ^ j = y then Some y else None)"
proof -
  define lo where "lo = (y div 10 ^ j) * 10 ^ j"
  define hi where "hi = lo + 10 ^ j"
  have "y mod 10 ^ j < 10 ^ j" by simp
  then have "y < hi" unfolding hi_def lo_def
    by (metis add.commute add_less_cancel_left div_mult_mod_eq mult.commute)
  then have okh: "to_double (of_nat hi) \<noteq> Fin (of_nat y)"
    using assms(2) by (intro to_double_above_safe)
  have "lo \<le> y" unfolding lo_def by simp
  then have "lo < 2 ^ 53" using assms(2) by simp
  then have "to_double (of_nat lo) = Fin (of_nat lo)" by (rule to_double_safe_nat)
  then have okl: "(0 < lo \<and> to_double (of_nat lo) = Fin (of_nat y)) = (lo = y)"
    using assms(1) by auto
  show ?thesis
    unfolding shortest_at_def Let_def lo_def[symmetric] hi_def[symmetric]
    using okh okl by auto
qed

lemma shortest_scan_safe:
  assumes "0 < y" "y < 2 ^ 53"
  shows "shortest_scan y j = Some y"
  by (induction j) (simp_all add: shortest_at_safe[OF assms])

text \<open>A positive integer below \<open>2\<^sup>5\<^sup>3\<close> is printed with its own digits.\<close>

lemma shortest_decimal_safe: "0 < y \<Longrightarrow> y < 2 ^ 53 \<Longrightarrow> shortest_decimal y = y"
  by (simp add: shortest_decimal_def shortest_scan_safe)

lemma to_double_Fin_cases:
  assumes "to_double q = Fin y"
  shows "y = 0 \<or> (is_rep y \<and> y < 2 powi 1024) \<or> (is_rep (- y) \<and> - y < 2 powi 1024)"
proof -
  have pos: "y = 0 \<or> (is_rep y \<and> y < 2 powi 1024)" if "0 < q" "to_double q = Fin y" for q y
  proof (cases "round_pos q = 0")
    case True
    then show ?thesis using that by (auto simp: to_double_def Let_def)
  next
    case False
    then have y: "y = round_pos q" "\<not> 1024 \<le> ilog2 y"
      using that by (auto simp: to_double_def Let_def split: if_splits)
    have rep: "is_rep y" using round_pos_range[OF that(1)] False y by simp
    have "y < 2 powi 1024"
    proof (rule ccontr)
      assume "\<not> y < 2 powi 1024"
      then have "2 powi 1024 \<le> y" by simp
      then have "1024 \<le> ilog2 y" using is_rep_pos[OF rep] by (intro ilog2_ge)
      then show False using y by simp
    qed
    then show ?thesis using rep by simp
  qed
  show ?thesis
  proof (cases "0 < q")
    case True
    then show ?thesis using assms pos by blast
  next
    case False
    show ?thesis
    proof (cases "q = 0")
      case True
      then show ?thesis using assms by (simp add: to_double_def)
    next
      case False
      then have q: "0 < - q" using \<open>\<not> 0 < q\<close> by simp
      have "to_double (- q) = Fin (- y)" using assms by (simp add: to_double_neg negate_def)
      then have "- y = 0 \<or> (is_rep (- y) \<and> - y < 2 powi 1024)" using pos[OF q] by blast
      then show ?thesis by auto
    qed
  qed
qed

lemma is_rep_floor:
  assumes "is_rep y"
  shows "y = of_int \<lfloor>y\<rfloor> \<or> y < 2 ^ 52"
proof -
  obtain m e where y: "y = of_int m * 2 powi e" and m: "0 < m" "m < 2 ^ 53" and e: "- 1074 \<le> e"
    using assms unfolding is_rep_def by blast
  show ?thesis
  proof (cases "0 \<le> e")
    case True
    then have "y = of_int (m * 2 ^ nat e)" by (simp add: y power_int_nonneg_exp)
    then have "y \<in> \<int>" by (metis Ints_of_int)
    then show ?thesis by (simp add: floor_of_int)
  next
    case False
    then have "(2::rat) powi e \<le> 2 powi (- 1)" by (intro two_powi_le) simp
    then have h: "(2::rat) powi e \<le> 1 / 2" by simp
    have "(of_int m :: rat) < of_int (2 ^ 53)" using m(2) by (simp only: of_int_less_iff)
    then have "(of_int m :: rat) < 2 ^ 53" by simp
    then have "y < 2 ^ 53 * 2 powi e" unfolding y by (intro mult_strict_right_mono) simp_all
    also have "\<dots> \<le> 2 ^ 53 * (1 / 2)" using h by (intro mult_left_mono) simp_all
    also have "\<dots> = 2 ^ 52" by simp
    finally show ?thesis by simp
  qed
qed

text \<open>The floor of a binary64 value is a binary64 value.\<close>

lemma to_double_floor:
  assumes "to_double q = Fin y"
  shows "to_double (of_int \<lfloor>y\<rfloor>) = Fin (of_int \<lfloor>y\<rfloor>)"
proof -
  have d: "to_double y = Fin y" using assms by (rule to_double_range)
  consider "y = 0" | "is_rep y" | "is_rep (- y)"
    using to_double_Fin_cases[OF assms] by blast
  then show ?thesis
  proof cases
    case 1
    then show ?thesis by (simp add: to_double_def)
  next
    case 2
    from is_rep_floor[OF 2] show ?thesis
    proof
      assume "y = of_int \<lfloor>y\<rfloor>"
      then show ?thesis using d by metis
    next
      assume "y < 2 ^ 52"
      then have "\<lfloor>y\<rfloor> < 2 ^ 52" by (simp add: floor_less_iff)
      moreover have "0 \<le> \<lfloor>y\<rfloor>" using is_rep_pos[OF 2] by simp
      ultimately have "\<bar>\<lfloor>y\<rfloor>\<bar> < 2 ^ 53" by simp
      then show ?thesis by (rule to_double_safe_int)
    qed
  next
    case 3
    from is_rep_floor[OF 3] show ?thesis
    proof
      assume "- y = of_int \<lfloor>- y\<rfloor>"
      then have "y = of_int (- \<lfloor>- y\<rfloor>)" by simp
      then obtain n where n: "y = of_int n" by blast
      show ?thesis using d unfolding n by simp
    next
      assume a: "- y < 2 ^ 52"
      then have "- (2 ^ 52) < y" by simp
      then have "of_int (- (2 ^ 52)) \<le> y" by simp
      then have "- (2 ^ 52) \<le> \<lfloor>y\<rfloor>" by (simp only: le_floor_iff)
      then have lo: "- 4503599627370496 \<le> \<lfloor>y\<rfloor>" by simp
      have "y < 0" using is_rep_pos[OF 3] by simp
      then have "\<lfloor>y\<rfloor> < 0" by (simp only: floor_less_zero)
      then have "\<bar>\<lfloor>y\<rfloor>\<bar> < 9007199254740992" using lo by linarith
      then have "\<bar>\<lfloor>y\<rfloor>\<bar> < 2 ^ 53" by simp
      then show ?thesis by (rule to_double_safe_int)
    qed
  qed
qed

section \<open>Printing and parsing\<close>

subsection \<open>Digits\<close>

lemma of_char_digit_char: "d < 10 \<Longrightarrow> of_char (digit_char d) = (48 + d :: nat)"
  by (simp add: digit_char_def)

lemma is_digit_digit_char: "d < 10 \<Longrightarrow> is_digit (digit_char d)"
  by (simp add: is_digit_def of_char_digit_char)

lemma digit_val_digit_char: "d < 10 \<Longrightarrow> digit_val (digit_char d) = d"
  by (simp add: digit_val_def of_char_digit_char)

lemma digit_char_zero: "d < 10 \<Longrightarrow> digit_char d = CHR ''0'' \<Longrightarrow> d = 0"
proof -
  assume d: "d < 10" and "digit_char d = CHR ''0''"
  then have "(of_char (digit_char d) :: nat) = of_char CHR ''0''" by simp
  then show ?thesis using d by (simp add: of_char_digit_char)
qed

lemma parse_nat_snoc: "parse_nat (xs @ [c]) = 10 * parse_nat xs + digit_val c"
  by (simp add: parse_nat_def)

lemma parse_nat_Nil: "parse_nat [] = 0"
  by (simp add: parse_nat_def)

lemma parse_nat_digits_of: "parse_nat (digits_of n) = n"
proof (induction n rule: digits_of.induct)
  case (1 n)
  show ?case
  proof (cases "n < 10")
    case True
    then show ?thesis
      using parse_nat_snoc[of "[]" "digit_char n"]
      by (simp add: digits_of.simps[of n] parse_nat_Nil digit_val_digit_char)
  next
    case False
    then show ?thesis using 1
      by (simp add: digits_of.simps[of n] parse_nat_snoc digit_val_digit_char)
  qed
qed

lemma digits_of_digits: "list_all is_digit (digits_of n)"
proof (induction n rule: digits_of.induct)
  case (1 n)
  show ?case
  proof (cases "n < 10")
    case True
    then show ?thesis by (simp add: digits_of.simps[of n] is_digit_digit_char)
  next
    case False
    then show ?thesis using 1 by (simp add: digits_of.simps[of n] is_digit_digit_char)
  qed
qed

lemma digits_of_nonempty: "digits_of n \<noteq> []"
  by (subst digits_of.simps) simp

lemma hd_digits_of: "0 < n \<Longrightarrow> hd (digits_of n) \<noteq> CHR ''0''"
proof (induction n rule: digits_of.induct)
  case (1 n)
  show ?case
  proof (cases "n < 10")
    case True
    then show ?thesis using 1(2) digit_char_zero[of n] by (auto simp: digits_of.simps[of n])
  next
    case False
    then have "0 < n div 10" by simp
    then have "hd (digits_of (n div 10)) \<noteq> CHR ''0''" using 1(1) False by simp
    then show ?thesis using False by (simp add: digits_of.simps[of n] digits_of_nonempty)
  qed
qed

lemma parse_nat_zeros: "parse_nat (xs @ replicate z CHR ''0'') = parse_nat xs * 10 ^ z"
proof (induction z)
  case 0
  then show ?case by simp
next
  case (Suc z)
  have "xs @ replicate (Suc z) CHR ''0'' = (xs @ replicate z CHR ''0'') @ [CHR ''0'']"
    by (simp add: replicate_append_same)
  then show ?case using Suc by (simp only: parse_nat_snoc) (simp add: digit_val_def)
qed

lemma strip_zeros_split:
  "ds = strip_zeros ds @ replicate (length ds - length (strip_zeros ds)) CHR ''0''"
proof -
  let ?P = "\<lambda>c. c = CHR ''0''"
  have t: "takeWhile ?P (rev ds) = replicate (length (takeWhile ?P (rev ds))) CHR ''0''"
    by (rule replicate_eqI) (auto dest: set_takeWhileD)
  have "rev ds = takeWhile ?P (rev ds) @ dropWhile ?P (rev ds)" by simp
  then have "ds = rev (dropWhile ?P (rev ds)) @ rev (takeWhile ?P (rev ds))"
    by (metis rev_append rev_rev_ident)
  then have d: "ds = strip_zeros ds @ rev (takeWhile ?P (rev ds))"
    by (simp add: strip_zeros_def)
  then have "length ds = length (strip_zeros ds) + length (takeWhile ?P (rev ds))"
    by (metis length_append length_rev)
  then have "length (takeWhile ?P (rev ds)) = length ds - length (strip_zeros ds)" by simp
  then show ?thesis using d t by (metis rev_replicate)
qed

lemma strip_zeros_nonempty:
  assumes "ds \<noteq> []" "hd ds \<noteq> CHR ''0''"
  shows "strip_zeros ds \<noteq> []"
proof
  assume "strip_zeros ds = []"
  then have "ds = replicate (length ds) CHR ''0''" using strip_zeros_split[of ds] by simp
  then have "hd ds = CHR ''0''" using assms(1) by (metis hd_replicate length_0_conv replicate_empty)
  then show False using assms(2) by simp
qed

lemma strip_zeros_digits: "list_all is_digit ds \<Longrightarrow> list_all is_digit (strip_zeros ds)"
  by (metis list_all_append strip_zeros_split)

lemma strip_zeros_length: "length (strip_zeros ds) \<le> length ds"
  by (metis le_add1 length_append strip_zeros_split)

lemma takeWhile_digits:
  "list_all is_digit ds \<Longrightarrow> \<not> is_digit c \<Longrightarrow> takeWhile is_digit (ds @ c # r) = ds"
  by (induction ds) auto

lemma dropWhile_digits:
  "list_all is_digit ds \<Longrightarrow> \<not> is_digit c \<Longrightarrow> dropWhile is_digit (ds @ c # r) = c # r"
  by (induction ds) auto

lemma takeWhile_all_digits: "list_all is_digit ds \<Longrightarrow> takeWhile is_digit ds = ds"
  by (induction ds) auto

lemma dropWhile_all_digits: "list_all is_digit ds \<Longrightarrow> dropWhile is_digit ds = []"
  by (induction ds) auto

lemma not_Infinity: "s \<noteq> [] \<Longrightarrow> is_digit (hd s) \<Longrightarrow> take 8 s \<noteq> ''Infinity''"
  by (cases s) (auto simp: is_digit_def)

lemma not_digit_chars:
  "\<not> is_digit CHR ''e''" "\<not> is_digit CHR ''.''" "\<not> is_digit CHR ''+''" "\<not> is_digit CHR ''-''"
  by (simp_all add: is_digit_def)

subsection \<open>Reading back what was printed\<close>

lemma digit_not_space: "is_digit c \<Longrightarrow> \<not> is_space c"
  by (auto simp: is_digit_def is_space_def)

lemma list_all_hd: "list_all P xs \<Longrightarrow> xs \<noteq> [] \<Longrightarrow> P (hd xs)"
  by (cases xs) auto

lemma list_all_last: "list_all P xs \<Longrightarrow> xs \<noteq> [] \<Longrightarrow> P (last xs)"
  by (induction xs) auto

lemma exponent_of_printed:
  "exponent_of (CHR ''e'' # CHR ''+'' # digits_of k) = int k"
  by (simp add: exponent_of_def takeWhile_all_digits digits_of_digits parse_nat_digits_of)

lemma str_unsigned_pos_to_string:
  assumes "to_double (of_nat y) = Fin (of_nat y)" "0 < y"
  shows "str_unsigned (pos_to_string y) = Fin (of_nat y) \<and> pos_to_string y \<noteq> []
       \<and> is_digit (hd (pos_to_string y)) \<and> is_digit (last (pos_to_string y))"
proof -
  define x where "x = shortest_decimal y"
  define ds where "ds = digits_of x"
  define n where "n = length ds"
  have x: "to_double (of_nat x) = Fin (of_nat y)" "0 < x"
    using shortest_decimal_sound[OF assms] by (simp_all add: x_def)
  have ds: "list_all is_digit ds" "ds \<noteq> []" "parse_nat ds = x" "hd ds \<noteq> CHR ''0''"
    using x(2) by (simp_all add: ds_def digits_of_digits digits_of_nonempty parse_nat_digits_of
        hd_digits_of)
  have hd: "is_digit (hd ds)" using ds(1,2) by (rule list_all_hd)
  show ?thesis
  proof (cases "n \<le> 21")
    case True
    then have p: "pos_to_string y = ds"
      by (simp add: pos_to_string_def Let_def x_def[symmetric] ds_def[symmetric] n_def)
    have "str_unsigned ds = to_double (of_nat (parse_nat ds))"
      using ds hd by (simp add: str_unsigned_def Let_def not_Infinity takeWhile_all_digits
          dropWhile_all_digits)
    then show ?thesis using p ds x hd list_all_last[of is_digit ds] by simp
  next
    case False
    define sd where "sd = strip_zeros ds"
    have sd: "sd \<noteq> []" "list_all is_digit sd" "length sd \<le> n"
      using ds by (simp_all add: sd_def strip_zeros_nonempty strip_zeros_digits
          strip_zeros_length n_def)
    obtain d rest where dr: "sd = d # rest" using sd(1) by (cases sd) auto
    have d: "is_digit d" "list_all is_digit rest" using sd(2) dr by simp_all
    have "ds = sd @ replicate (n - length sd) CHR ''0''"
      unfolding sd_def n_def by (rule strip_zeros_split)
    then have "parse_nat ds = parse_nat sd * 10 ^ (n - length sd)"
      by (metis parse_nat_zeros)
    then have v: "x = parse_nat (d # rest) * 10 ^ (n - Suc (length rest))"
      using ds(3) dr by simp
    have hdsd: "hd ds = d"
      using \<open>ds = sd @ replicate (n - length sd) CHR ''0''\<close> dr by (metis hd_append2 list.sel(1) sd(1))
    define ex where "ex = digits_of (n - 1)"
    have ex: "ex \<noteq> []" "list_all is_digit ex"
      "exponent_of (CHR ''e'' # CHR ''+'' # ex) = int (n - 1)"
      by (simp_all add: ex_def digits_of_nonempty digits_of_digits exponent_of_printed)
    let ?out = "(if rest = [] then [d] else d # CHR ''.'' # rest) @ ''e+'' @ ex"
    have p: "pos_to_string y = ?out"
      using False
      by (simp add: pos_to_string_def Let_def x_def[symmetric] ds_def[symmetric]
          n_def[symmetric] sd_def[symmetric] dr ex_def)
    have lr: "Suc (length rest) \<le> n" using sd(3) dr by simp
    have val: "str_unsigned ?out = to_double (of_nat x)"
    proof (cases "rest = []")
      case True
      have "str_unsigned (d # CHR ''e'' # CHR ''+'' # ex)
          = to_double (of_nat (parse_nat [d]) * 10 powi int (n - 1))"
        using d(1) takeWhile_digits[of "[d]" "CHR ''e''" "CHR ''+'' # ex"]
          dropWhile_digits[of "[d]" "CHR ''e''" "CHR ''+'' # ex"]
        by (simp add: str_unsigned_def Let_def is_digit_def ex(3))
      also have "of_nat (parse_nat [d]) * 10 powi int (n - 1) = (of_nat x :: rat)"
        using v True by simp
      finally show ?thesis using True by simp
    next
      case False
      have tw: "takeWhile is_digit (rest @ CHR ''e'' # CHR ''+'' # ex) = rest"
        "dropWhile is_digit (rest @ CHR ''e'' # CHR ''+'' # ex) = CHR ''e'' # CHR ''+'' # ex"
        using d(2) by (simp_all add: takeWhile_digits dropWhile_digits not_digit_chars)
      have "str_unsigned (d # CHR ''.'' # rest @ CHR ''e'' # CHR ''+'' # ex)
          = to_double (of_nat (parse_nat ([d] @ rest)) * 10 powi (int (n - 1) - int (length rest)))"
        using d(1) takeWhile_digits[of "[d]" "CHR ''.''" "rest @ CHR ''e'' # CHR ''+'' # ex"]
          dropWhile_digits[of "[d]" "CHR ''.''" "rest @ CHR ''e'' # CHR ''+'' # ex"]
        by (simp add: str_unsigned_def Let_def is_digit_def ex(3) tw)
      also have "int (n - 1) - int (length rest) = int (n - Suc (length rest))"
        using lr by simp
      also have "of_nat (parse_nat ([d] @ rest)) * 10 powi int (n - Suc (length rest))
          = (of_nat x :: rat)"
        using v by simp
      finally show ?thesis using False by simp
    qed
    have h: "hd ?out = d" by simp
    have l: "last ?out = last ex" using ex(1) by simp
    have "is_digit (last ex)" using ex(2,1) by (rule list_all_last)
    then show ?thesis using p val x(1) h l d(1) by simp
  qed
qed

lemma parseFloat_digit_head:
  assumes "s \<noteq> []" "is_digit (hd s)"
  shows "parseFloat s = str_unsigned s" "parseFloat (CHR ''-'' # s) = negate (str_unsigned s)"
proof -
  obtain c r where s: "s = c # r" using assms(1) by (cases s) auto
  have c: "is_digit c" using assms(2) s by simp
  then have "\<not> is_space c" "c \<noteq> CHR ''+''" "c \<noteq> CHR ''-''"
    using digit_not_space not_digit_chars by auto
  then show "parseFloat s = str_unsigned s"
    by (simp add: parseFloat_def trimStart_def s)
  show "parseFloat (CHR ''-'' # s) = negate (str_unsigned s)"
    by (simp add: parseFloat_def trimStart_def is_space_def)
qed

text \<open>Printing an integral binary64 value and reading it back gives the value.\<close>

lemma parseFloat_String_of:
  assumes "to_double (of_int i) = Fin (of_int i)"
  shows "parseFloat (String_of (IFin i)) = Fin (of_int i)"
proof -
  consider "i = 0" | "0 < i" | "i < 0" by linarith
  then show ?thesis
  proof cases
    case 1
    then show ?thesis
      by (simp add: String_of_def parseFloat_def trimStart_def is_space_def str_unsigned_def
          is_digit_def parse_nat_def digit_val_def to_double_def)
  next
    case 2
    then have "to_double (of_nat (nat i)) = Fin (of_nat (nat i))" "0 < nat i"
      using assms by simp_all
    from str_unsigned_pos_to_string[OF this]
    have "parseFloat (pos_to_string (nat i)) = Fin (of_nat (nat i))"
      using parseFloat_digit_head(1) by metis
    then show ?thesis using 2 by (simp add: String_of_def)
  next
    case 3
    have "to_double (- of_int i) = negate (Fin (of_int i))"
      using assms by (simp only: to_double_neg)
    then have "to_double (of_int (- i)) = Fin (of_int (- i))"
      by (simp add: negate_def)
    then have "to_double (of_nat (nat (- i))) = Fin (of_nat (nat (- i)))" "0 < nat (- i)"
      using 3 by simp_all
    from str_unsigned_pos_to_string[OF this]
    have "parseFloat (CHR ''-'' # pos_to_string (nat (- i))) = negate (Fin (of_nat (nat (- i))))"
      using parseFloat_digit_head(2) by metis
    then show ?thesis using 3 by (simp add: String_of_def negate_def)
  qed
qed

lemma parseFloat_Infinity:
  "parseFloat ''Infinity'' = PosInf" "parseFloat ''-Infinity'' = NegInf"
  by (simp_all add: parseFloat_def trimStart_def is_space_def str_unsigned_def negate_def)

lemma str_unsigned_range: "str_unsigned s = Fin q \<Longrightarrow> to_double q = Fin q"
  by (auto simp: str_unsigned_def Let_def split: if_splits list.splits dest: to_double_range)

lemma parseFloat_range:
  assumes "parseFloat s = Fin q"
  shows "to_double q = Fin q"
proof -
  have n: "to_double q = Fin q" if "negate (str_unsigned r) = Fin q" for r
  proof -
    have "str_unsigned r = Fin (- q)" using that
      by (cases "str_unsigned r") (simp_all add: negate_def)
    then have "to_double (- q) = Fin (- q)" by (rule str_unsigned_range)
    then have "negate (to_double q) = Fin (- q)" by (simp only: to_double_neg)
    then show ?thesis by (cases "to_double q") (simp_all add: negate_def)
  qed
  show ?thesis using assms n
    by (auto simp: parseFloat_def split: list.splits if_splits dest: str_unsigned_range)
qed

text \<open>What \<open>String(Math.floor(num))\<close> prints for the result of a \<open>parseFloat\<close> reads back
  as the same integral value.\<close>

lemma reparse_floor:
  assumes "parseFloat s = num" "num \<noteq> NaN"
  shows "parseFloat (String_of (Math_floor num)) \<noteq> NaN
       \<and> Math_floor (parseFloat (String_of (Math_floor num))) = Math_floor num"
proof (cases num)
  case NaN
  then show ?thesis using assms by simp
next
  case (Fin q)
  then have "to_double q = Fin q" using assms(1) parseFloat_range by simp
  then have "to_double (of_int \<lfloor>q\<rfloor>) = Fin (of_int \<lfloor>q\<rfloor>)" by (rule to_double_floor)
  then have "parseFloat (String_of (IFin \<lfloor>q\<rfloor>)) = Fin (of_int \<lfloor>q\<rfloor>)"
    by (rule parseFloat_String_of)
  then show ?thesis using Fin by (simp add: Math_floor_def)
next
  case PosInf
  then show ?thesis by (simp add: Math_floor_def String_of_def parseFloat_Infinity)
next
  case NegInf
  then show ?thesis by (simp add: Math_floor_def String_of_def parseFloat_Infinity)
qed

section \<open>Normalized identifiers\<close>

subsection \<open>Trimming\<close>

lemma trim_id:
  assumes "s \<noteq> []" "\<not> is_space (hd s)" "\<not> is_space (last s)"
  shows "trim s = s"
proof -
  have a: "dropWhile is_space s = s" using assms(1,2) by (cases s) auto
  have "rev s \<noteq> []" "\<not> is_space (hd (rev s))" using assms(1,3) by (simp_all add: hd_rev)
  then have "dropWhile is_space (rev s) = rev s" by (cases "rev s") auto
  then show ?thesis using a by (simp add: trim_def)
qed

lemma trim_shape:
  assumes "trim s \<noteq> []"
  shows "\<not> is_space (hd (trim s)) \<and> \<not> is_space (last (trim s))"
proof -
  define u where "u = dropWhile is_space s"
  define t where "t = dropWhile is_space (rev u)"
  have ts: "trim s = rev t" by (simp add: trim_def u_def t_def)
  then have t: "t \<noteq> []" using assms by simp
  then have l: "\<not> is_space (hd t)" unfolding t_def by (rule hd_dropWhile)
  have "rev u = takeWhile is_space (rev u) @ t" by (simp add: t_def)
  then have "u = rev t @ rev (takeWhile is_space (rev u))"
    by (metis rev_append rev_rev_ident)
  then have "hd u = hd (rev t)" "u \<noteq> []" using t by (metis hd_append2 rev_is_Nil_conv, auto)
  then have "\<not> is_space (hd (rev t))" using hd_dropWhile[of is_space s] by (simp add: u_def)
  then show ?thesis using l t by (simp add: ts last_rev)
qed

lemma trim_trim: "trim (trim s) = trim s"
proof (cases "trim s = []")
  case True
  have "trim [] = []" by (simp add: trim_def)
  then show ?thesis using True by simp
next
  case False
  then show ?thesis using trim_shape[OF False] by (intro trim_id) simp_all
qed

lemma String_of_shape:
  assumes "parseFloat s = num" "num \<noteq> NaN"
  shows "String_of (Math_floor num) \<noteq> [] \<and> trim (String_of (Math_floor num)) = String_of (Math_floor num)"
proof (cases num)
  case NaN
  then show ?thesis using assms by simp
next
  case (Fin q)
  then have "to_double q = Fin q" using assms(1) parseFloat_range by simp
  then have f: "to_double (of_int \<lfloor>q\<rfloor>) = Fin (of_int \<lfloor>q\<rfloor>)" by (rule to_double_floor)
  define i where "i = \<lfloor>q\<rfloor>"
  have sp: "\<not> is_space CHR ''-''" by (simp add: is_space_def)
  consider "i = 0" | "0 < i" | "i < 0" by linarith
  then have "String_of (IFin i) \<noteq> [] \<and> \<not> is_space (hd (String_of (IFin i)))
      \<and> \<not> is_space (last (String_of (IFin i)))"
  proof cases
    case 1
    then show ?thesis by (simp add: String_of_def is_space_def)
  next
    case 2
    then have "to_double (of_nat (nat i)) = Fin (of_nat (nat i))" "0 < nat i"
      using f by (simp_all add: i_def)
    from str_unsigned_pos_to_string[OF this] show ?thesis
      using 2 digit_not_space by (simp add: String_of_def)
  next
    case 3
    have "to_double (- of_int i) = negate (Fin (of_int i))"
      using f by (simp only: to_double_neg i_def)
    then have "to_double (of_int (- i)) = Fin (of_int (- i))" by (simp add: negate_def)
    then have "to_double (of_nat (nat (- i))) = Fin (of_nat (nat (- i)))" "0 < nat (- i)"
      using 3 by simp_all
    from str_unsigned_pos_to_string[OF this] show ?thesis
      using 3 digit_not_space sp by (simp add: String_of_def)
  qed
  then show ?thesis using Fin by (simp add: Math_floor_def i_def trim_id)
next
  case PosInf
  then show ?thesis by (simp add: Math_floor_def String_of_def trim_def is_space_def)
next
  case NegInf
  then show ?thesis by (simp add: Math_floor_def String_of_def trim_def is_space_def)
qed

text \<open>The text that \<open>String(Math.floor(num))\<close> gives is a fixed point of both normalizers.\<close>

lemma printed_fixed:
  assumes "parseFloat s = num" "num \<noteq> NaN"
  shows "normalizeHB (Some (String_of (Math_floor num))) = String_of (Math_floor num)"
    and "normalizeHB_csvUtils (Some (String_of (Math_floor num))) = String_of (Math_floor num)"
proof -
  let ?out = "String_of (Math_floor num)"
  have sh: "?out \<noteq> []" "trim ?out = ?out" using String_of_shape[OF assms] by simp_all
  have re: "parseFloat ?out \<noteq> NaN" "Math_floor (parseFloat ?out) = Math_floor num"
    using reparse_floor[OF assms] by simp_all
  show "normalizeHB (Some ?out) = ?out"
    using sh re by (simp add: normalizeHB_def Let_def)
  show "normalizeHB_csvUtils (Some ?out) = ?out"
    using sh re by (simp add: normalizeHB_csvUtils_def Let_def)
qed

lemma sci_notation_nonempty: "sci_notation s \<Longrightarrow> s \<noteq> []"
  by (auto simp: sci_notation_def)

lemma normalizeHB_fixed: "normalizeHB (Some (normalizeHB v)) = normalizeHB v"
proof (cases v)
  case None
  then show ?thesis by (simp add: normalizeHB_def)
next
  case (Some s)
  show ?thesis
  proof (cases "s = []")
    case True
    then show ?thesis using Some by (simp add: normalizeHB_def)
  next
    case False
    define t where "t = trim s"
    show ?thesis
    proof (cases "sci_notation t \<and> parseFloat t \<noteq> NaN")
      case True
      then have "normalizeHB v = String_of (Math_floor (parseFloat t))"
        using Some False by (simp add: normalizeHB_def Let_def t_def)
      then show ?thesis using printed_fixed(1)[of t "parseFloat t"] True by simp
    next
      case F: False
      then have n: "normalizeHB v = t"
        using Some False by (auto simp: normalizeHB_def Let_def t_def)
      have "normalizeHB (Some t) = t"
      proof (cases "t = []")
        case True
        then show ?thesis by (simp add: normalizeHB_def)
      next
        case False
        have "trim t = t" by (simp add: t_def trim_trim)
        then show ?thesis using False F by (auto simp: normalizeHB_def Let_def)
      qed
      then show ?thesis using n by simp
    qed
  qed
qed

subsection \<open>Text that is no number\<close>

lemma to_double_not_NaN: "to_double q \<noteq> NaN"
  by (simp add: to_double_def Let_def)

lemma takeWhile_digit_Nil: "takeWhile is_digit s = [] \<longleftrightarrow> (case s of [] \<Rightarrow> True | c # r \<Rightarrow> \<not> is_digit c)"
  by (cases s) auto

lemma str_unsigned_NaN_iff:
  "str_unsigned s = NaN \<longleftrightarrow>
     take 8 s \<noteq> ''Infinity'' \<and>
     (case s of [] \<Rightarrow> True
      | c # r \<Rightarrow> \<not> is_digit c \<and> (c = CHR ''.'' \<longrightarrow> (case r of [] \<Rightarrow> True | d # r' \<Rightarrow> \<not> is_digit d)))"
proof (cases s)
  case Nil
  then show ?thesis by (simp add: str_unsigned_def)
next
  case (Cons c r)
  show ?thesis
  proof (cases "is_digit c")
    case True
    then show ?thesis
      using Cons not_Infinity[of s]
      by (auto simp: str_unsigned_def Let_def to_double_not_NaN split: list.splits)
  next
    case False
    then have "takeWhile is_digit s = []" "dropWhile is_digit s = c # r" using Cons by simp_all
    then show ?thesis
      using Cons False
      by (auto simp: str_unsigned_def Let_def to_double_not_NaN takeWhile_digit_Nil split: list.splits)
  qed
qed

lemma take_Infinity_append: "take 8 a = ''Infinity'' \<Longrightarrow> take 8 (a @ w) = ''Infinity''"
proof -
  assume a: "take 8 a = ''Infinity''"
  then have "length (take 8 a) = 8" by simp
  then have "8 \<le> length a" by simp
  then show ?thesis using a by simp
qed

lemma str_unsigned_NaN_prefix:
  assumes "str_unsigned (a @ w) = NaN"
  shows "str_unsigned a = NaN"
proof -
  have 1: "take 8 a \<noteq> ''Infinity''"
    using assms take_Infinity_append[of a w] by (auto simp: str_unsigned_NaN_iff)
  show ?thesis
  proof (cases a)
    case Nil
    then show ?thesis by (simp add: str_unsigned_def)
  next
    case (Cons c r)
    then show ?thesis using assms 1
      by (cases r) (auto simp: str_unsigned_NaN_iff)
  qed
qed

lemma negate_NaN: "negate x = NaN \<longleftrightarrow> x = NaN"
  by (cases x) (simp_all add: negate_def)

lemma parseFloat_trim_NaN:
  assumes "parseFloat s = NaN"
  shows "parseFloat (trim s) = NaN"
proof (cases "trim s = []")
  case True
  then show ?thesis by (simp add: parseFloat_def trimStart_def)
next
  case False
  define u where "u = dropWhile is_space s"
  define w where "w = rev (takeWhile is_space (rev u))"
  have "rev u = takeWhile is_space (rev u) @ dropWhile is_space (rev u)" by simp
  then have "u = rev (dropWhile is_space (rev u)) @ rev (takeWhile is_space (rev u))"
    by (metis rev_append rev_rev_ident)
  then have u: "u = trim s @ w" by (simp add: trim_def u_def w_def)
  obtain c r where t: "trim s = c # r" using False by (cases "trim s") auto
  have "\<not> is_space c" using trim_shape[OF False] t by simp
  then have ts: "trimStart (trim s) = c # r" by (simp add: trimStart_def t)
  have us: "trimStart s = c # (r @ w)" using u t by (simp add: trimStart_def u_def)
  have p: "parseFloat s =
      (if c = CHR ''+'' then str_unsigned (r @ w)
       else if c = CHR ''-'' then negate (str_unsigned (r @ w))
       else str_unsigned ((c # r) @ w))"
    by (simp add: parseFloat_def us)
  have q: "parseFloat (trim s) =
      (if c = CHR ''+'' then str_unsigned r
       else if c = CHR ''-'' then negate (str_unsigned r)
       else str_unsigned (c # r))"
    by (simp add: parseFloat_def ts)
  have "str_unsigned (c # r) = NaN" if "str_unsigned ((c # r) @ w) = NaN"
    using that by (rule str_unsigned_NaN_prefix)
  then show ?thesis
    using assms unfolding p q
    by (auto simp: negate_NaN dest: str_unsigned_NaN_prefix split: if_splits)
qed

lemma normalizeHB_csvUtils_fixed:
  "normalizeHB_csvUtils (Some (normalizeHB_csvUtils v)) = normalizeHB_csvUtils v"
proof (cases v)
  case None
  then show ?thesis by (simp add: normalizeHB_csvUtils_def)
next
  case (Some s)
  show ?thesis
  proof (cases "s = []")
    case True
    then show ?thesis using Some by (simp add: normalizeHB_csvUtils_def)
  next
    case False
    show ?thesis
    proof (cases "parseFloat s = NaN")
      case N: False
      then have "normalizeHB_csvUtils v = String_of (Math_floor (parseFloat s))"
        using Some False by (simp add: normalizeHB_csvUtils_def Let_def)
      then show ?thesis using printed_fixed(2)[of s "parseFloat s"] N by simp
    next
      case True
      then have n: "normalizeHB_csvUtils v = trim s"
        using Some False by (simp add: normalizeHB_csvUtils_def Let_def)
      have "parseFloat (trim s) = NaN" using True by (rule parseFloat_trim_NaN)
      then have "normalizeHB_csvUtils (Some (trim s)) = trim s"
        by (simp add: normalizeHB_csvUtils_def Let_def trim_trim)
      then show ?thesis using n by simp
    qed
  qed
qed

subsection \<open>Integers below \<open>2\<^sup>5\<^sup>3\<close>\<close>

lemma length_digits_of: "0 < k \<Longrightarrow> n < 10 ^ k \<Longrightarrow> length (digits_of n) \<le> k"
proof (induction n arbitrary: k rule: digits_of.induct)
  case (1 n)
  show ?case
  proof (cases "n < 10")
    case True
    then show ?thesis using 1(2) by (simp add: digits_of.simps[of n])
  next
    case False
    obtain k' where k: "k = Suc k'" using 1(2) by (cases k) auto
    have "k' \<noteq> 0" using False 1(3) k by (cases k') auto
    moreover have "n div 10 < 10 ^ k'" using 1(3) k by (simp add: less_mult_imp_div_less)
    ultimately have "length (digits_of (n div 10)) \<le> k'" using 1(1)[OF False, of k'] by simp
    then show ?thesis using False k by (simp add: digits_of.simps[of n])
  qed
qed

lemma pos_to_string_safe:
  assumes "0 < y" "y < 2 ^ 53"
  shows "pos_to_string y = digits_of y"
proof -
  have "y < 10 ^ 21" using assms(2) by simp
  then have "length (digits_of y) \<le> 21" by (intro length_digits_of) simp_all
  then show ?thesis using assms by (simp add: pos_to_string_def shortest_decimal_safe Let_def)
qed

lemma digit_char_0: "digit_char 0 = CHR ''0''"
  by code_simp

lemma String_of_safe:
  assumes "\<bar>i\<bar> < 2 ^ 53"
  shows "String_of (IFin i) = int_decimal i"
proof -
  consider "i = 0" | "0 < i" | "i < 0" by linarith
  then show ?thesis
  proof cases
    case 1
    then show ?thesis by (simp add: String_of_def int_decimal_def digits_of.simps[of 0] digit_char_0)
  next
    case 2
    then have "0 < nat i" "nat i < 2 ^ 53" using assms by (simp_all add: nat_less_iff)
    then show ?thesis using 2 by (simp add: String_of_def int_decimal_def pos_to_string_safe)
  next
    case 3
    then have "0 < nat (- i)" "nat (- i) < 2 ^ 53" using assms by (simp_all add: nat_less_iff)
    then show ?thesis using 3 by (simp add: String_of_def int_decimal_def pos_to_string_safe)
  qed
qed

lemma sci_notation_parses:
  assumes "sci_notation s"
  shows "parseFloat s \<noteq> NaN"
proof -
  define s1 where "s1 = (case s of [] \<Rightarrow> [] | c # r \<Rightarrow> if c = CHR ''-'' then r else s)"
  have "takeWhile is_digit s1 \<noteq> []" using assms by (simp add: sci_notation_def Let_def s1_def)
  then obtain c r where s1: "s1 = c # r" "is_digit c"
    by (cases s1) (auto split: if_splits)
  then have n: "str_unsigned s1 \<noteq> NaN" by (simp add: str_unsigned_NaN_iff)
  have h: "s1 \<noteq> []" "is_digit (hd s1)" using s1 by simp_all
  show ?thesis
  proof (cases "s = CHR ''-'' # s1")
    case True
    then show ?thesis using parseFloat_digit_head(2)[OF h] n by (simp add: negate_NaN)
  next
    case False
    then have "s = s1" by (auto simp: s1_def split: list.splits if_splits)
    then show ?thesis using parseFloat_digit_head(1)[OF h] n by simp
  qed
qed

lemma normalizeHB_sci:
  assumes "s \<noteq> ''''" "sci_notation (trim s)"
  shows "normalizeHB (Some s) = String_of (Math_floor (parseFloat (trim s)))"
  using assms sci_notation_parses[of "trim s"] by (simp add: normalizeHB_def Let_def)

lemma normalizeHB_sci_safe:
  assumes "s \<noteq> ''''" "sci_notation (trim s)" "parseFloat (trim s) = Fin q" "\<bar>\<lfloor>q\<rfloor>\<bar> < 2 ^ 53"
  shows "normalizeHB (Some s) = int_decimal \<lfloor>q\<rfloor>"
  using normalizeHB_sci[OF assms(1,2)] assms(3,4) by (simp add: Math_floor_def String_of_safe)

lemma normalizeHB_other:
  "s \<noteq> '''' \<Longrightarrow> \<not> sci_notation (trim s) \<Longrightarrow> normalizeHB (Some s) = trim s"
  by (simp add: normalizeHB_def Let_def)

subsection \<open>Concrete texts\<close>

lemmas parse_defs = parseFloat_def trimStart_def is_space_def str_unsigned_def is_digit_def
  parse_nat_def digit_val_def exponent_of_def negate_def Let_def

lemma to_double_617000000: "to_double 617000000 = Fin 617000000"
  using to_double_safe_int[of 617000000] by simp

lemma parseFloat_617: "parseFloat ''6.17E+08'' = Fin 617000000"
  by (simp add: parse_defs to_double_617000000)

lemma to_double_3_2: "to_double (3 / 2) = Fin (3 / 2)"
proof -
  have "round_pos (of_int 3 * 2 powi (- 1)) = of_int 3 * 2 powi (- 1)"
    by (intro round_pos_exact) simp_all
  then have "round_pos (3 / 2) = 3 / 2" by simp
  then show ?thesis by (intro to_double_pos) simp_all
qed

lemma parseFloat_neg_1_5: "parseFloat ''-1.5e0'' = Fin (- (3 / 2))"
  by (simp add: parse_defs to_double_3_2)

lemma digit_char_simps:
  "digit_char 0 = CHR ''0''" "digit_char 1 = CHR ''1''" "digit_char 2 = CHR ''2''"
  "digit_char 3 = CHR ''3''" "digit_char 4 = CHR ''4''" "digit_char 5 = CHR ''5''"
  "digit_char 6 = CHR ''6''" "digit_char 7 = CHR ''7''" "digit_char 8 = CHR ''8''"
  "digit_char 9 = CHR ''9''"
  by code_simp+

lemma digit_char_Suc0: "digit_char (Suc 0) = CHR ''1''"
  using digit_char_simps(2) by simp

lemmas digits_eval = digits_of.simps digit_char_simps digit_char_Suc0

lemma trim_literals:
  "trim ''6.17E+08'' = ''6.17E+08''" "trim ''62R0537240'' = ''62R0537240''"
  "trim ''-1.5e0'' = ''-1.5e0''" "trim ''1e21'' = ''1e21''"
  by (simp_all add: trim_def is_space_def)

lemma sci_literals:
  "sci_notation ''6.17E+08''" "\<not> sci_notation ''62R0537240''" "sci_notation ''-1.5e0''"
  "sci_notation ''1e21''"
  by (simp_all add: sci_notation_def is_digit_def)

lemma floor_neg_3_2: "\<lfloor>- (3 / 2) :: rat\<rfloor> = - 2"
  by (rule floor_unique) simp_all

lemma normalizeHB_neg_1_5: "normalizeHB (Some ''-1.5e0'') = ''-2''"
proof -
  have "normalizeHB (Some ''-1.5e0'') = int_decimal \<lfloor>- (3 / 2) :: rat\<rfloor>"
    by (rule normalizeHB_sci_safe)
      (simp_all add: trim_literals sci_literals parseFloat_neg_1_5 floor_neg_3_2)
  then show ?thesis by (simp add: floor_neg_3_2 int_decimal_def digits_eval)
qed

lemma normalizeHB_617: "normalizeHB (Some ''6.17E+08'') = ''617000000''"
proof -
  have "normalizeHB (Some ''6.17E+08'') = int_decimal \<lfloor>617000000 :: rat\<rfloor>"
    by (rule normalizeHB_sci_safe) (simp_all add: trim_literals sci_literals parseFloat_617)
  then show ?thesis by (simp add: int_decimal_def digits_eval)
qed

lemma to_double_62: "to_double 62 = Fin 62"
  using to_double_safe_int[of 62] by simp

text \<open>The earlier \<open>normalizeHB\<close> converts the numeric head of an alphanumeric identifier.\<close>

lemma normalizeHB_csvUtils_alphanumeric: "normalizeHB_csvUtils (Some ''62R0537240'') = ''62''"
proof -
  have "parseFloat ''62R0537240'' = Fin 62"
    by (simp add: parse_defs to_double_62)
  then have "normalizeHB_csvUtils (Some ''62R0537240'') = String_of (IFin 62)"
    by (simp add: normalizeHB_csvUtils_def Math_floor_def)
  also have "\<dots> = int_decimal 62" by (intro String_of_safe) simp
  finally show ?thesis by (simp add: int_decimal_def digits_eval)
qed

lemma to_double_pow2_multiple:
  assumes "0 < m" "m < 2 ^ 53" "q = of_int m * 2 ^ k" "k \<le> 971"
  shows "to_double q = Fin q"
proof -
  have e: "(2::rat) powi int k = 2 ^ k" by simp
  have "round_pos (of_int m * 2 powi int k) = of_int m * 2 powi int k"
    using assms(1,2) by (intro round_pos_exact) simp_all
  then have r: "round_pos q = q" by (simp add: assms(3))
  have "(of_int m :: rat) < of_int (2 ^ 53)" using assms(2) by (simp only: of_int_less_iff)
  then have "(of_int m :: rat) < 2 powi 53" by simp
  then have "q < 2 powi 53 * 2 powi int k" unfolding assms(3) e[symmetric]
    by (intro mult_strict_right_mono) simp_all
  also have "\<dots> = 2 powi (53 + int k)" by (simp only: two_powi_add)
  also have "\<dots> \<le> 2 powi 1024" using assms(4) by (intro two_powi_le) simp
  finally have "q < 2 powi 1024" .
  moreover have "0 < q" using assms(1) by (simp add: assms(3))
  ultimately show ?thesis using r by (intro to_double_pos)
qed

lemma to_double_1e21: "to_double 1000000000000000000000 = Fin 1000000000000000000000"
  by (rule to_double_pow2_multiple[of 476837158203125 _ 21]) simp_all

lemma to_double_2e21: "to_double 2000000000000000000000 = Fin 2000000000000000000000"
  by (rule to_double_pow2_multiple[of 476837158203125 _ 22]) simp_all

lemma to_double_1e22: "to_double 10000000000000000000000 = Fin 10000000000000000000000"
  by (rule to_double_pow2_multiple[of 2384185791015625 _ 22]) simp_all

lemma digits_1e21: "digits_of 1000000000000000000000 = ''1000000000000000000000''"
  by (simp add: digits_eval)

lemma shortest_at_above:
  assumes "y div 10 ^ j = 0" "to_double (of_nat (10 ^ j)) \<noteq> Fin (of_nat y)"
  shows "shortest_at y j = None"
  using assms by (simp add: shortest_at_def Let_def)

lemma shortest_at_exact:
  assumes "(y div 10 ^ j) * 10 ^ j = y" "0 < y" "to_double (of_nat y) = Fin (of_nat y)"
    "to_double (of_nat (y + 10 ^ j)) \<noteq> Fin (of_nat y)"
  shows "shortest_at y j = Some y"
  using assms by (simp add: shortest_at_def Let_def)

lemma shortest_scan_step:
  "0 < j \<Longrightarrow> shortest_scan y j =
     (case shortest_at y j of Some x \<Rightarrow> Some x | None \<Rightarrow> shortest_scan y (j - 1))"
  by (cases j) (auto split: option.splits)

lemma shortest_1e21: "shortest_decimal 1000000000000000000000 = 1000000000000000000000"
proof -
  have a: "shortest_at 1000000000000000000000 22 = None"
    by (rule shortest_at_above) (simp_all add: to_double_1e22)
  have b: "shortest_at 1000000000000000000000 21 = Some 1000000000000000000000"
    by (rule shortest_at_exact) (simp_all add: to_double_1e21 to_double_2e21)
  have "shortest_scan 1000000000000000000000 21 = Some 1000000000000000000000"
    by (subst shortest_scan_step) (simp_all only: b option.case zero_less_numeral)
  then have "shortest_scan 1000000000000000000000 22 = Some 1000000000000000000000"
    by (subst shortest_scan_step) (simp_all add: a)
  moreover have "length (digits_of 1000000000000000000000) = 22"
    by (simp add: digits_1e21)
  ultimately show ?thesis by (simp only: shortest_decimal_def option.case)
qed

text \<open>A text with exponent 21 is normalized to the exponential form, which is kept.\<close>

lemma parseFloat_1e21: "parseFloat ''1e21'' = Fin 1000000000000000000000"
  by (simp add: parse_defs to_double_1e21)

lemma normalizeHB_1e21:
  "normalizeHB (Some ''1e21'') = ''1e+21''" "normalizeHB (Some ''1e+21'') = ''1e+21''"
proof -
  note p = parseFloat_1e21
  have "pos_to_string 1000000000000000000000 = ''1e+21''"
    by (simp add: pos_to_string_def shortest_1e21 digits_1e21 strip_zeros_def digits_eval)
  then have s: "String_of (Math_floor (Fin 1000000000000000000000)) = ''1e+21''"
    by (simp add: String_of_def Math_floor_def)
  have "normalizeHB (Some ''1e21'') = String_of (Math_floor (parseFloat (trim ''1e21'')))"
    by (rule normalizeHB_sci) (simp_all add: trim_literals sci_literals)
  then show 1: "normalizeHB (Some ''1e21'') = ''1e+21''"
    by (simp add: trim_literals p s)
  show "normalizeHB (Some ''1e+21'') = ''1e+21''"
    using normalizeHB_fixed[of "Some ''1e21''"] 1 by simp
qed

subsection \<open>The contract\<close>

text \<open>
  C2.  \<open>normalize(null)\<close> and \<open>normalize("")\<close> are \<open>""\<close>.  For a text whose trimmed form
  matches the pattern of scientific notation the result is what
  \<open>String(Math.floor(parseFloat(text)))\<close> prints: the floor of the parsed float, which for a
  magnitude below \<open>2\<^sup>5\<^sup>3\<close> is printed as its decimal numeral.  Every other text is returned
  trimmed.
\<close>

theorem normalizeHB_contract:
  "normalizeHB None = '''' \<and> normalizeHB (Some '''') = ''''
   \<and> (s \<noteq> '''' \<and> sci_notation (trim s) \<longrightarrow>
        normalizeHB (Some s) = String_of (Math_floor (parseFloat (trim s))))
   \<and> (s \<noteq> '''' \<and> sci_notation (trim s) \<and> parseFloat (trim s) = Fin q \<and> \<bar>\<lfloor>q\<rfloor>\<bar> < 2 ^ 53 \<longrightarrow>
        normalizeHB (Some s) = int_decimal \<lfloor>q\<rfloor>)
   \<and> (t \<noteq> '''' \<and> \<not> sci_notation (trim t) \<longrightarrow> normalizeHB (Some t) = trim t)"
  using normalizeHB_sci[of s] normalizeHB_sci_safe[of s q] normalizeHB_other[of t]
  by (simp add: normalizeHB_def)

theorem normalizeHB_contract_witness:
  "''6.17E+08'' \<noteq> '''' \<and> sci_notation (trim ''6.17E+08'')
   \<and> parseFloat (trim ''6.17E+08'') = Fin 617000000 \<and> \<bar>\<lfloor>617000000 :: rat\<rfloor>\<bar> < 2 ^ 53
   \<and> ''62R0537240'' \<noteq> '''' \<and> \<not> sci_notation (trim ''62R0537240'')
   \<and> normalizeHB (Some ''6.17E+08'') = ''617000000''
   \<and> normalizeHB (Some ''62R0537240'') = ''62R0537240''"
proof -
  have a: "''6.17E+08'' \<noteq> '''' \<and> sci_notation (trim ''6.17E+08'')
      \<and> parseFloat (trim ''6.17E+08'') = Fin 617000000 \<and> \<bar>\<lfloor>617000000 :: rat\<rfloor>\<bar> < 2 ^ 53"
    by (simp add: trim_literals sci_literals parseFloat_617)
  have b: "''62R0537240'' \<noteq> '''' \<and> \<not> sci_notation (trim ''62R0537240'')"
    by (simp add: trim_literals sci_literals)
  have d: "int_decimal \<lfloor>617000000 :: rat\<rfloor> = ''617000000''"
    by (simp add: int_decimal_def digits_eval)
  note c = normalizeHB_contract [of "''6.17E+08''" 617000000 "''62R0537240''"]
  have e: "normalizeHB (Some ''6.17E+08'') = int_decimal \<lfloor>617000000 :: rat\<rfloor>"
    using c a by blast
  have f: "normalizeHB (Some ''62R0537240'') = trim ''62R0537240''"
    using c b by blast
  show ?thesis using a b d e f by (simp add: trim_literals)
qed

text \<open>
  The claim C2 as it is written fails for a negative number with a fraction and for a
  large number: the float parsed from \<open>-1.5e0\<close> is \<open>-3/2\<close>, whose truncation is \<open>-1\<close>, and
  the result is \<open>-2\<close>; the float parsed from \<open>1e21\<close> is \<open>10\<^sup>2\<^sup>1\<close>, and the result is not its
  decimal numeral but \<open>1e+21\<close>.
\<close>

theorem normalizeHB_floor_counterexample:
  "sci_notation (trim ''-1.5e0'') \<and> parseFloat (trim ''-1.5e0'') = Fin (- (3 / 2))
   \<and> normalizeHB (Some ''-1.5e0'') = ''-2''
   \<and> normalizeHB (Some ''-1.5e0'') \<noteq> ''-1''
   \<and> sci_notation (trim ''1e21'') \<and> parseFloat (trim ''1e21'') = Fin 1000000000000000000000
   \<and> normalizeHB (Some ''1e21'') = ''1e+21''
   \<and> normalizeHB (Some ''1e21'') \<noteq> ''1000000000000000000000''"
  by (simp add: trim_literals sci_literals parseFloat_neg_1_5 normalizeHB_neg_1_5
      parseFloat_1e21 normalizeHB_1e21)

text \<open>
  C9.  Normalizing twice is normalizing once, for \<open>null\<close> and for every string, with
  either text of \<open>normalizeHB\<close>; so what a text in scientific notation is normalized to,
  in plain digits or in exponential form, is a fixed point.
\<close>

theorem normalizeHB_idempotent:
  "normalizeHB (Some (normalizeHB v)) = normalizeHB v
   \<and> normalizeHB_csvUtils (Some (normalizeHB_csvUtils v)) = normalizeHB_csvUtils v"
  by (simp add: normalizeHB_fixed normalizeHB_csvUtils_fixed)

end
